theory Spec2Isabelle
  imports Main "HOL-Library.Word"
begin

section \<open>The async protocol of libavformat (async.c)\<close>

text \<open>
  A shallow embedding of \<^verbatim>\<open>src/libavformat/async.c\<close>: the shared \<^verbatim>\<open>Context\<close>, the
  cancellation predicate, one iteration of the background worker's loop, and the
  foreground entry points \<^verbatim>\<open>async_open\<close>, \<^verbatim>\<open>async_read_internal\<close>, \<^verbatim>\<open>async_read\<close>
  and \<^verbatim>\<open>async_seek\<close>.

  Integers are machine words of an LP64 platform: \<^verbatim>\<open>int\<close> has 32 bits, \<^verbatim>\<open>int64_t\<close> and
  \<^verbatim>\<open>size_t\<close> have 64 bits. A signed comparison of the source is written \<open><s\<close> or \<open>\<le>s\<close>,
  an unsigned one \<open><\<close> or \<open>\<le>\<close>; a conversion between widths is \<open>ucast\<close> (truncation or
  zero extension) or \<open>scast\<close> (sign extension), as C's conversion rules give it.
\<close>

subsection \<open>Integer types and constants\<close>

type_synonym c_int = "32 word"
type_synonym int64_t = "64 word"
type_synonym size_t = "64 word"
type_synonym uint8_t = "8 word"

definition BUFFER_CAPACITY :: c_int where
  "BUFFER_CAPACITY = 4 * 1024 * 1024"

definition SHORT_SEEK_THRESHOLD :: c_int where
  "SHORT_SEEK_THRESHOLD = 256 * 1024"

text \<open>
  The error codes and the \<^verbatim>\<open>whence\<close> values are macros of \<^verbatim>\<open>libavutil/error.h\<close>,
  \<^verbatim>\<open>avio.h\<close> and \<^verbatim>\<open>stdio.h\<close>, none of which is under \<^verbatim>\<open>src/\<close>. The spec asks for
  distinct negative sentinels for end of stream and for abort, and for an
  invalid-argument error; the values below are the ones FFmpeg's \<^verbatim>\<open>FFERRTAG\<close> and
  \<^verbatim>\<open>AVERROR\<close> macros produce on a POSIX system.
\<close>

text \<open>Modelled from the spec: the "end of stream" sentinel, \<^verbatim>\<open>FFERRTAG('E','O','F',' ')\<close>.\<close>

definition AVERROR_EOF :: c_int where
  "AVERROR_EOF = - 541478725"

text \<open>Modelled from the spec: the "aborted" sentinel, \<^verbatim>\<open>FFERRTAG('E','X','I','T')\<close>.\<close>

definition AVERROR_EXIT :: c_int where
  "AVERROR_EXIT = - 1414092869"

text \<open>Modelled from the spec: the "invalid argument" error, \<^verbatim>\<open>AVERROR(EINVAL)\<close>.\<close>

definition AVERROR_EINVAL :: c_int where
  "AVERROR_EINVAL = - 22"

text \<open>Modelled from the spec: the allocation error of open, \<^verbatim>\<open>AVERROR(ENOMEM)\<close>.\<close>

definition AVERROR_ENOMEM :: c_int where
  "AVERROR_ENOMEM = - 12"

text \<open>Modelled from the spec: the \<^verbatim>\<open>whence\<close> of an absolute seek.\<close>

definition SEEK_SET :: c_int where
  "SEEK_SET = 0"

text \<open>Modelled from the spec: the \<^verbatim>\<open>whence\<close> of a seek relative to the current position.\<close>

definition SEEK_CUR :: c_int where
  "SEEK_CUR = 1"

text \<open>Modelled from the spec: the \<^verbatim>\<open>whence\<close> that queries the total size.\<close>

definition AVSEEK_SIZE :: c_int where
  "AVSEEK_SIZE = 65536"

text \<open>
  Modelled from the spec: \<^verbatim>\<open>FFMIN\<close> is a macro of \<^verbatim>\<open>libavutil/common.h\<close>, not under
  \<^verbatim>\<open>src/\<close>; the spec reads it as the minimum ("min(remaining_requested,
  available_data)"). FFmpeg's definition is \<^verbatim>\<open>((a) > (b) ? (b) : (a))\<close>, here on \<^verbatim>\<open>int\<close>
  operands.
\<close>

definition FFMIN :: "c_int \<Rightarrow> c_int \<Rightarrow> c_int" where
  "FFMIN a b = (if b <s a then b else a)"

subsection \<open>The ring buffer\<close>

text \<open>
  Modelled from the spec: \<^verbatim>\<open>AVFifoBuffer\<close> and its functions live in
  \<^verbatim>\<open>libavutil/fifo.c\<close>, which is not under \<^verbatim>\<open>src/\<close>. The spec describes a bounded byte
  queue of fixed capacity that tracks used and free bytes, with "write up to N bytes by
  pulling from a source reader callback (returns bytes written or a negative error)",
  "read up to N bytes into a destination, or discard them without copying" and "reset
  to empty". The queue is the list of buffered bytes, oldest first.
\<close>

record AVFifoBuffer =
  queued :: "uint8_t list"
  capacity :: nat

text \<open>Modelled from the spec: an empty queue of the capacity asked for.\<close>

definition av_fifo_alloc :: "c_int \<Rightarrow> AVFifoBuffer" where
  "av_fifo_alloc n = \<lparr>queued = [], capacity = unat n\<rparr>"

text \<open>Modelled from the spec: the spec's "available_data", as an \<^verbatim>\<open>int\<close>.\<close>

definition av_fifo_size :: "AVFifoBuffer \<Rightarrow> c_int" where
  "av_fifo_size f = of_nat (length (queued f))"

text \<open>Modelled from the spec: the spec's "available_space", as an \<^verbatim>\<open>int\<close>.\<close>

definition av_fifo_space :: "AVFifoBuffer \<Rightarrow> c_int" where
  "av_fifo_space f = of_nat (capacity f - length (queued f))"

text \<open>Modelled from the spec: "reset to empty".\<close>

definition av_fifo_reset :: "AVFifoBuffer \<Rightarrow> AVFifoBuffer" where
  "av_fifo_reset f = f\<lparr>queued := []\<rparr>"

text \<open>
  Modelled from the spec: "read up to N bytes into a destination, or discard them": the
  bytes taken from the front of the queue, and the queue that is left. The caller
  decides whether the bytes are copied.
\<close>

definition av_fifo_generic_read :: "AVFifoBuffer \<Rightarrow> c_int \<Rightarrow> uint8_t list \<times> AVFifoBuffer" where
  "av_fifo_generic_read f n =
     (take (nat (sint n)) (queued f), f\<lparr>queued := drop (nat (sint n)) (queued f)\<rparr>)"

text \<open>
  Modelled from the spec: what the wrapped source answers when the fifo pulls from it
  through \<^verbatim>\<open>ffurl_read\<close> (\<^verbatim>\<open>avio.c\<close>, not under \<^verbatim>\<open>src/\<close>): bytes (none at the end of
  the stream), or a negative error code. The fifo takes at most the number of bytes it
  was asked to write.
\<close>

datatype source_read = Data "uint8_t list" | Fail c_int

text \<open>
  Modelled from the spec: "write up to N bytes by pulling from a source reader callback
  (returns bytes written or a negative error)".
\<close>

definition av_fifo_generic_write :: "AVFifoBuffer \<Rightarrow> source_read \<Rightarrow> c_int \<Rightarrow> c_int \<times> AVFifoBuffer" where
  "av_fifo_generic_write f src n =
     (case src of
        Data bs \<Rightarrow>
          (let written = take (nat (sint n)) bs
           in (of_nat (length written), f\<lparr>queued := queued f @ written\<rparr>))
      | Fail e \<Rightarrow> (e, f))"

subsection \<open>The shared context\<close>

text \<open>
  \<^verbatim>\<open>struct Context\<close>, field by field. The mutex and the two condition variables carry no
  data. \<^verbatim>\<open>async_buffer_thread\<close> holds the state of the worker thread.
  \<^verbatim>\<open>interrupt_callback\<close> is \<open>None\<close> when the callback pointer is \<^verbatim>\<open>NULL\<close>, and otherwise
  holds the value the external callback returns when it is polled now. The wrapped source
  \<^verbatim>\<open>inner\<close> is external: its answers come with the worker's steps (see below).
\<close>

datatype pthread_t = Not_created | Running | Exited

record Context =
  seek_request :: c_int
  seek_pos :: size_t
  seek_whence :: c_int
  seek_completed :: c_int
  seek_ret :: int64_t
  io_error :: c_int
  io_eof_reached :: c_int
  logical_pos :: size_t
  logical_size :: size_t
  fifo :: AVFifoBuffer
  async_buffer_thread :: pthread_t
  abort_request :: c_int
  interrupt_callback :: "c_int option"

subsection \<open>The cancellation predicate\<close>

definition async_interrupt_callback :: "Context \<Rightarrow> c_int" where
  "async_interrupt_callback c =
     (case interrupt_callback c of
        Some ret \<Rightarrow> if ret = 0 then ret else abort_request c
      | None \<Rightarrow> abort_request c)"

subsection \<open>The background worker\<close>

text \<open>
  The answers of the wrapped source to the calls one iteration of the worker's loop may
  make: the result of \<^verbatim>\<open>ffurl_seek\<close> (an \<^verbatim>\<open>int64_t\<close>: the new offset, or a negative
  error) and the outcome of the read the fifo pulls through \<^verbatim>\<open>ffurl_read\<close>.
\<close>

datatype inner_reply = Reply (ffurl_seek: int64_t) (ffurl_read: source_read)

text \<open>
  One iteration of the \<^verbatim>\<open>while (1)\<close> loop of \<^verbatim>\<open>async_buffer_task\<close>. The first component
  is \<open>False\<close> when the iteration leaves the loop (\<^verbatim>\<open>break\<close>). The local \<^verbatim>\<open>ret\<close> is an
  \<^verbatim>\<open>int\<close>: the result of \<^verbatim>\<open>ffurl_seek\<close> is truncated to 32 bits when it is stored there,
  and sign-extended when \<^verbatim>\<open>ret\<close> is stored in \<^verbatim>\<open>seek_ret\<close>. An iteration that waits on
  \<^verbatim>\<open>cond_wakeup_background\<close> changes nothing.
\<close>

definition async_buffer_task_iteration :: "inner_reply \<Rightarrow> Context \<Rightarrow> bool \<times> Context" where
  "async_buffer_task_iteration r c =
     (if async_interrupt_callback c \<noteq> 0 then
        (False, c\<lparr>io_eof_reached := 1, io_error := AVERROR_EXIT\<rparr>)
      else if seek_request c \<noteq> 0 then
        (let ret = (ucast (ffurl_seek r) :: c_int);
             c1 = (if ret <s 0 then c\<lparr>io_eof_reached := 1, io_error := ret\<rparr>
                   else c\<lparr>io_eof_reached := 0, io_error := 0\<rparr>)
         in (True, c1\<lparr>seek_completed := 1, seek_ret := scast ret, seek_request := 0,
                       fifo := av_fifo_reset (fifo c1)\<rparr>))
      else
        (let fifo_space = av_fifo_space (fifo c)
         in if io_eof_reached c \<noteq> 0 \<or> fifo_space \<le>s 0 then (True, c)
            else
              (let to_copy = FFMIN 4096 fifo_space;
                   (ret, fifo') = av_fifo_generic_write (fifo c) (ffurl_read r) to_copy;
                   c1 = c\<lparr>fifo := fifo'\<rparr>
               in if ret \<le>s 0 then
                    (let c2 = c1\<lparr>io_eof_reached := 1\<rparr>
                     in if ret <s 0 then (True, c2\<lparr>io_error := ret\<rparr>) else (True, c2))
                  else (True, c1))))"

subsection \<open>What happens while the foreground waits\<close>

text \<open>
  The foreground runs under the mutex and gives it up only inside
  \<^verbatim>\<open>pthread_cond_wait\<close>. The model takes each iteration of the worker as one atomic step
  and lets the rest of the world act while the foreground is blocked in a wait: a
  wake-up carries the events that happened since the foreground went to sleep, in order.
  An event is an iteration of the worker (with the answers of the source), a change of
  what the external interrupt callback answers, or \<^verbatim>\<open>async_close\<close> setting
  \<^verbatim>\<open>abort_request\<close> from another thread. A foreground call consumes one wake-up per wait;
  when none is left, the call stays blocked for ever and has no result (\<open>None\<close>).
  Between two waits a foreground call runs as one step; what the environment does
  between two calls shows in the context the next call starts from.
\<close>

datatype event = Worker inner_reply | Interrupt c_int | Close_abort

fun env_step :: "event \<Rightarrow> Context \<Rightarrow> Context" where
  "env_step (Worker r) c =
     (if async_buffer_thread c = Running then
        (let (continue, c') = async_buffer_task_iteration r c
         in if continue then c' else c'\<lparr>async_buffer_thread := Exited\<rparr>)
      else c)"
| "env_step (Interrupt v) c =
     c\<lparr>interrupt_callback := (case interrupt_callback c of None \<Rightarrow> None | Some _ \<Rightarrow> Some v)\<rparr>"
| "env_step Close_abort c = c\<lparr>abort_request := 1\<rparr>"

type_synonym wake = "event list"

definition pthread_cond_wait :: "wake \<Rightarrow> Context \<Rightarrow> Context" where
  "pthread_cond_wait w c = foldl (\<lambda>c' e. env_step e c') c w"

subsection \<open>Opening\<close>

text \<open>
  The results of the external calls \<^verbatim>\<open>async_open\<close> makes, in the order it makes them.
\<close>

record open_calls =
  av_fifo_alloc_ok :: bool
  ffurl_open_ret :: c_int
  ffurl_size_ret :: int64_t
  pthread_mutex_init_ret :: c_int
  pthread_cond_init_main_ret :: c_int
  pthread_cond_init_background_ret :: c_int
  pthread_create_ret :: c_int

text \<open>
  \<^verbatim>\<open>async_open\<close>: the error code it returns, or the context it leaves behind when it
  returns 0. The private data of a protocol is zero-initialised before \<^verbatim>\<open>url_open2\<close>
  is called; \<open>h_interrupt_callback\<close> is the callback of the handle being opened.
\<close>

definition async_open :: "c_int option \<Rightarrow> open_calls \<Rightarrow> c_int + Context" where
  "async_open h_interrupt_callback ext =
     (if \<not> av_fifo_alloc_ok ext then Inl AVERROR_ENOMEM
      else if ffurl_open_ret ext \<noteq> 0 then Inl (ffurl_open_ret ext)
      else if pthread_mutex_init_ret ext \<noteq> 0 then Inl (pthread_mutex_init_ret ext)
      else if pthread_cond_init_main_ret ext \<noteq> 0 then Inl (pthread_cond_init_main_ret ext)
      else if pthread_cond_init_background_ret ext \<noteq> 0 then
        Inl (pthread_cond_init_background_ret ext)
      else if pthread_create_ret ext \<noteq> 0 then Inl (pthread_create_ret ext)
      else Inr \<lparr>seek_request = 0, seek_pos = 0, seek_whence = 0, seek_completed = 0,
                seek_ret = 0, io_error = 0, io_eof_reached = 0, logical_pos = 0,
                logical_size = ffurl_size_ret ext,
                fifo = av_fifo_alloc BUFFER_CAPACITY,
                async_buffer_thread = Running, abort_request = 0,
                interrupt_callback = h_interrupt_callback\<rparr>)"

subsection \<open>Reading\<close>

datatype copy_func = NULL_func | fifo_do_not_copy_func

text \<open>
  The result of one pass through the body of a foreground loop: the loop is left with a
  result, or the thread signals the worker and waits on \<^verbatim>\<open>cond_wakeup_main\<close>.
\<close>

datatype ('r, 's) pass = Leave 'r | Wait 's

text \<open>
  One pass of the \<^verbatim>\<open>while (to_read > 0)\<close> loop of \<^verbatim>\<open>async_read_internal\<close>, the loop
  test included. The loop's variables are the context, the bytes copied to \<^verbatim>\<open>dest\<close> so
  far, \<^verbatim>\<open>to_read\<close> and \<^verbatim>\<open>ret\<close>; \<open>sz\<close> is the parameter \<^verbatim>\<open>size\<close>.
\<close>

definition async_read_internal_pass ::
  "c_int \<Rightarrow> c_int \<Rightarrow> copy_func \<Rightarrow> Context \<times> uint8_t list \<times> c_int \<times> c_int \<Rightarrow>
   (c_int \<times> uint8_t list \<times> Context, Context \<times> uint8_t list \<times> c_int \<times> c_int) pass" where
  "async_read_internal_pass sz read_complete func st =
     (case st of (c, dest, to_read, ret) \<Rightarrow>
        if \<not> 0 <s to_read then Leave (ret, dest, c)
        else if async_interrupt_callback c \<noteq> 0 then Leave (AVERROR_EXIT, dest, c)
        else
          (let fifo_size = av_fifo_size (fifo c);
               to_copy = FFMIN to_read fifo_size
           in if 0 <s to_copy then
                (let (bytes, fifo') = av_fifo_generic_read (fifo c) to_copy;
                     dest' = (case func of NULL_func \<Rightarrow> dest @ bytes
                              | fifo_do_not_copy_func \<Rightarrow> dest);
                     c' = c\<lparr>fifo := fifo', logical_pos := logical_pos c + scast to_copy\<rparr>;
                     to_read' = to_read - to_copy;
                     ret' = sz - to_read'
                 in if to_read' \<le>s 0 \<or> read_complete = 0 then Leave (ret', dest', c')
                    else Wait (c', dest', to_read', ret'))
              else if io_eof_reached c \<noteq> 0 then
                Leave (if ret \<le>s 0 then AVERROR_EOF else ret, dest, c)
              else Wait (c, dest, to_read, ret)))"

text \<open>
  The loop: a pass, then a wait that consumes the next wake-up. The result carries the
  wake-ups that are left.
\<close>

fun async_read_internal_loop ::
  "c_int \<Rightarrow> c_int \<Rightarrow> copy_func \<Rightarrow> wake list \<Rightarrow> Context \<times> uint8_t list \<times> c_int \<times> c_int \<Rightarrow>
   (c_int \<times> uint8_t list \<times> Context \<times> wake list) option" where
  "async_read_internal_loop sz read_complete func [] st =
     (case async_read_internal_pass sz read_complete func st of
        Leave (ret, dest, c) \<Rightarrow> Some (ret, dest, c, [])
      | Wait _ \<Rightarrow> None)"
| "async_read_internal_loop sz read_complete func (w # ws) st =
     (case async_read_internal_pass sz read_complete func st of
        Leave (ret, dest, c) \<Rightarrow> Some (ret, dest, c, w # ws)
      | Wait (c, dest, to_read, ret) \<Rightarrow>
          async_read_internal_loop sz read_complete func ws
            (pthread_cond_wait w c, dest, to_read, ret))"

definition async_read_internal ::
  "wake list \<Rightarrow> Context \<Rightarrow> c_int \<Rightarrow> c_int \<Rightarrow> copy_func \<Rightarrow>
   (c_int \<times> uint8_t list \<times> Context \<times> wake list) option" where
  "async_read_internal sched c sz read_complete func =
     async_read_internal_loop sz read_complete func sched (c, [], sz, 0)"

definition async_read ::
  "wake list \<Rightarrow> Context \<Rightarrow> c_int \<Rightarrow> (c_int \<times> uint8_t list \<times> Context \<times> wake list) option" where
  "async_read sched c sz = async_read_internal sched c sz 0 NULL_func"

subsection \<open>Seeking\<close>

text \<open>One pass of the \<^verbatim>\<open>while (1)\<close> loop in which \<^verbatim>\<open>async_seek\<close> waits for the worker.\<close>

definition async_seek_pass :: "Context \<Rightarrow> (int64_t \<times> Context, Context) pass" where
  "async_seek_pass c =
     (if async_interrupt_callback c \<noteq> 0 then Leave (scast AVERROR_EXIT, c)
      else if seek_completed c \<noteq> 0 then
        Leave (seek_ret c,
               if 0 \<le>s seek_ret c then c\<lparr>logical_pos := seek_ret c\<rparr> else c)
      else Wait c)"

fun async_seek_loop :: "wake list \<Rightarrow> Context \<Rightarrow> (int64_t \<times> Context \<times> wake list) option" where
  "async_seek_loop [] c =
     (case async_seek_pass c of Leave (ret, c') \<Rightarrow> Some (ret, c', []) | Wait _ \<Rightarrow> None)"
| "async_seek_loop (w # ws) c =
     (case async_seek_pass c of
        Leave (ret, c') \<Rightarrow> Some (ret, c', w # ws)
      | Wait c' \<Rightarrow> async_seek_loop ws (pthread_cond_wait w c'))"

definition async_seek ::
  "wake list \<Rightarrow> Context \<Rightarrow> int64_t \<Rightarrow> c_int \<Rightarrow> (int64_t \<times> Context \<times> wake list) option" where
  "async_seek sched c pos whence =
     (if whence = AVSEEK_SIZE then Some (logical_size c, c, sched)
      else if whence \<noteq> SEEK_CUR \<and> whence \<noteq> SEEK_SET then Some (scast AVERROR_EINVAL, c, sched)
      else
        (let new_logical_pos = (if whence = SEEK_CUR then pos + logical_pos c else pos)
         in if new_logical_pos <s 0 then Some (scast AVERROR_EINVAL, c, sched)
            else
              (let fifo_size = av_fifo_size (fifo c)
               in if new_logical_pos = logical_pos c then Some (logical_pos c, c, sched)
                  else if logical_pos c < new_logical_pos \<and>
                          new_logical_pos
                            < logical_pos c + scast fifo_size + scast SHORT_SEEK_THRESHOLD then
                    (case async_read_internal sched c (ucast (new_logical_pos - logical_pos c))
                            1 fifo_do_not_copy_func of
                       None \<Rightarrow> None
                     | Some (ret, dest, c', sched') \<Rightarrow> Some (logical_pos c', c', sched'))
                  else if logical_size c \<le> 0 then Some (scast AVERROR_EINVAL, c, sched)
                  else if logical_size c < new_logical_pos then
                    Some (scast AVERROR_EINVAL, c, sched)
                  else
                    async_seek_loop sched
                      (c\<lparr>seek_request := 1, seek_pos := new_logical_pos,
                         seek_whence := SEEK_SET, seek_completed := 0, seek_ret := 0\<rparr>))))"

subsection \<open>States of a running stream\<close>

text \<open>
  The buffer is the one \<^verbatim>\<open>async_open\<close> allocated, and holds no more than its capacity.
  This holds in every reachable state (\<open>reachable_fifo_bounded\<close> below).
\<close>

definition fifo_bounded :: "Context \<Rightarrow> bool" where
  "fifo_bounded c \<longleftrightarrow>
     capacity (fifo c) = unat BUFFER_CAPACITY \<and> length (queued (fifo c)) \<le> capacity (fifo c)"

text \<open>
  The atomic steps of the two threads on the shared context: an event of the
  environment, a pass of the read loop (with any values of its variables), the posting of
  a seek request, and a pass of the seek loop that leaves it.
\<close>

inductive step :: "Context \<Rightarrow> Context \<Rightarrow> bool" where
  environment: "step c (env_step e c)"
| read_leaves:
    "async_read_internal_pass sz rc func (c, dest, to_read, ret) = Leave (r, d, c') \<Longrightarrow> step c c'"
| read_waits:
    "async_read_internal_pass sz rc func (c, dest, to_read, ret) = Wait (c', d, t, r) \<Longrightarrow>
     step c c'"
| seek_posts:
    "step c (c\<lparr>seek_request := 1, seek_pos := p, seek_whence := SEEK_SET,
               seek_completed := 0, seek_ret := 0\<rparr>)"
| seek_leaves: "async_seek_pass c = Leave (r, c') \<Longrightarrow> step c c'"

inductive reachable :: "Context \<Rightarrow> bool" where
  opened: "async_open cb ext = Inr c \<Longrightarrow> reachable c"
| stepped: "reachable c \<Longrightarrow> step c c' \<Longrightarrow> reachable c'"

text \<open>
  The target of a seek (\<^verbatim>\<open>new_logical_pos\<close>), for \<^verbatim>\<open>SEEK_CUR\<close> and \<^verbatim>\<open>SEEK_SET\<close>.
\<close>

definition seek_target :: "Context \<Rightarrow> int64_t \<Rightarrow> c_int \<Rightarrow> int64_t" where
  "seek_target c pos whence = (if whence = SEEK_CUR then pos + logical_pos c else pos)"

text \<open>
  The invariant of the read loop at the head of a pass, and what holds of the result when
  the loop is left: \<open>lp0\<close> is \<^verbatim>\<open>logical_pos\<close> at the call, \<open>n\<close> the number of bytes
  moved by the call.
\<close>

definition read_inv ::
  "c_int \<Rightarrow> c_int \<Rightarrow> copy_func \<Rightarrow> size_t \<Rightarrow> Context \<times> uint8_t list \<times> c_int \<times> c_int \<Rightarrow> bool" where
  "read_inv sz read_complete func lp0 st =
     (case st of (c, dest, to_read, ret) \<Rightarrow>
        fifo_bounded c \<and> 0 < sint to_read \<and> sint to_read \<le> sint sz
        \<and> sint ret = sint sz - sint to_read
        \<and> logical_pos c = lp0 + word_of_int (sint sz - sint to_read)
        \<and> (read_complete = 0 \<longrightarrow> to_read = sz)
        \<and> (func = NULL_func \<longrightarrow> int (length dest) = sint sz - sint to_read)
        \<and> (func = fifo_do_not_copy_func \<longrightarrow> dest = []))"

definition read_outcome ::
  "c_int \<Rightarrow> c_int \<Rightarrow> copy_func \<Rightarrow> size_t \<Rightarrow> c_int \<Rightarrow> uint8_t list \<Rightarrow> Context \<Rightarrow> bool" where
  "read_outcome sz read_complete func lp0 r d c' =
     (fifo_bounded c' \<and>
      (\<exists>n. 0 \<le> n \<and> n \<le> sint sz \<and> logical_pos c' = lp0 + word_of_int n
         \<and> (func = NULL_func \<longrightarrow> int (length d) = n)
         \<and> (func = fifo_do_not_copy_func \<longrightarrow> d = [])
         \<and> ((r = AVERROR_EXIT \<and> async_interrupt_callback c' \<noteq> 0 \<and> n < sint sz
               \<and> (read_complete = 0 \<longrightarrow> n = 0))
            \<or> (r = AVERROR_EOF \<and> n = 0 \<and> io_eof_reached c' \<noteq> 0 \<and> queued (fifo c') = []
               \<and> async_interrupt_callback c' = 0)
            \<or> (0 < n \<and> sint r = n
               \<and> (read_complete \<noteq> 0 \<longrightarrow>
                    n = sint sz \<or> (io_eof_reached c' \<noteq> 0 \<and> queued (fifo c') = []))))))"

subsection \<open>A stream for the examples\<close>

text \<open>
  A source of ten bytes opened without an interrupt callback, every external call
  succeeding, and the context \<^verbatim>\<open>async_open\<close> leaves behind.
\<close>

definition example_calls :: open_calls where
  "example_calls =
     \<lparr>av_fifo_alloc_ok = True, ffurl_open_ret = 0, ffurl_size_ret = 10,
      pthread_mutex_init_ret = 0, pthread_cond_init_main_ret = 0,
      pthread_cond_init_background_ret = 0, pthread_create_ret = 0\<rparr>"

definition example_context :: Context where
  "example_context =
     \<lparr>seek_request = 0, seek_pos = 0, seek_whence = 0, seek_completed = 0, seek_ret = 0,
      io_error = 0, io_eof_reached = 0, logical_pos = 0, logical_size = 10,
      fifo = \<lparr>queued = [], capacity = 4194304\<rparr>,
      async_buffer_thread = Running, abort_request = 0, interrupt_callback = None\<rparr>"

section \<open>Properties\<close>

subsection \<open>Evaluation\<close>

lemmas model_defs =
  async_interrupt_callback_def async_read_def async_read_internal_def
  async_read_internal_pass_def async_seek_def async_seek_pass_def pthread_cond_wait_def
  async_buffer_task_iteration_def async_open_def av_fifo_alloc_def av_fifo_size_def
  av_fifo_space_def av_fifo_reset_def av_fifo_generic_read_def av_fifo_generic_write_def
  FFMIN_def BUFFER_CAPACITY_def SHORT_SEEK_THRESHOLD_def AVERROR_EOF_def AVERROR_EXIT_def
  AVERROR_EINVAL_def AVERROR_ENOMEM_def SEEK_SET_def SEEK_CUR_def AVSEEK_SIZE_def
  seek_target_def fifo_bounded_def example_calls_def example_context_def
  Let_def word_sless_alt word_sle_eq

lemma async_open_example: "async_open None example_calls = Inr example_context"
  by (simp add: model_defs)

subsection \<open>The cancellation predicate\<close>

lemma async_interrupt_callback_nonzero:
  "async_interrupt_callback c \<noteq> 0 \<longleftrightarrow>
     abort_request c \<noteq> 0 \<and> interrupt_callback c \<noteq> Some 0"
  by (auto simp: async_interrupt_callback_def split: option.splits)

text \<open>
  C1. The claim: the cancellation predicate is true exactly when the external interrupt
  callback reports true or \<^verbatim>\<open>abort_request\<close> is set. The code does not do this. With a
  callback installed, the predicate returns the callback's 0 when the callback answers 0,
  and \<^verbatim>\<open>abort_request\<close> when the callback answers non-zero (the test is
  \<^verbatim>\<open>if (!ret) return ret;\<close>): it signals cancellation only when both are set. Below, the
  callback reports 1 with \<^verbatim>\<open>abort_request\<close> clear, and then reports 0 with
  \<^verbatim>\<open>abort_request\<close> set; the predicate returns 0 both times.
\<close>

theorem async_interrupt_callback_misses_cancellation:
  "async_interrupt_callback
     (example_context\<lparr>abort_request := 0, interrupt_callback := Some 1\<rparr>) = 0
   \<and> async_interrupt_callback
     (example_context\<lparr>abort_request := 1, interrupt_callback := Some 0\<rparr>) = 0"
  by (simp add: async_interrupt_callback_def example_context_def)

subsection \<open>Machine integers\<close>

lemma sint_of_nat_small: "n < 2 ^ 31 \<Longrightarrow> sint (of_nat n :: c_int) = int n"
  by (simp add: signed_of_nat signed_take_bit_int_eq_self)

lemma sint_FFMIN: "sint (FFMIN a b) = min (sint a) (sint b)"
  by (auto simp: FFMIN_def word_sless_alt)

lemma sint_sub_c_int:
  fixes a b :: c_int
  assumes "- 2147483648 \<le> sint a - sint b" "sint a - sint b < 2147483648"
  shows "sint (a - b) = sint a - sint b"
proof -
  have "sint (a - b) = signed_take_bit (LENGTH(32) - 1) (sint a - sint b)"
    by (rule sint_word_ariths)
  also have "\<dots> = sint a - sint b"
    by (rule signed_take_bit_int_eq_self) (use assms in simp_all)
  finally show ?thesis .
qed

lemma scast_c_int_eq: "(scast (x :: c_int) :: size_t) = word_of_int (sint x)"
  by (rule scast_eq)

lemma sint_ucast_small:
  fixes x :: size_t
  assumes "x < 2147483648"
  shows "sint (ucast x :: c_int) = uint x"
proof -
  have u: "uint x < 2147483648" using assms by (simp add: word_less_alt)
  have "sint (ucast x :: c_int) = signed_take_bit 31 (uint x)"
    by (simp add: sint_uint unsigned_ucast_eq take_bit_int_eq_self u uint_ge_0 
        signed_take_bit_take_bit)
  also have "\<dots> = uint x"
  proof (rule signed_take_bit_int_eq_self)
    show "- (2 ^ 31) \<le> uint x" by (rule order_trans[where y = 0]) simp_all
    show "uint x < 2 ^ 31" using u by simp
  qed
  finally show ?thesis .
qed

subsection \<open>The buffer stays within its capacity\<close>

lemma unat_BUFFER_CAPACITY: "unat BUFFER_CAPACITY = 4194304"
  by (simp add: BUFFER_CAPACITY_def)

lemma fifo_boundedD:
  assumes "fifo_bounded c"
  shows "capacity (fifo c) = 4194304" and "length (queued (fifo c)) \<le> 4194304"
  using assms by (simp_all add: fifo_bounded_def unat_BUFFER_CAPACITY)

lemma sint_av_fifo_size:
  assumes "fifo_bounded c"
  shows "sint (av_fifo_size (fifo c)) = int (length (queued (fifo c)))"
  unfolding av_fifo_size_def
  by (rule sint_of_nat_small) (use fifo_boundedD[OF assms] in simp)

lemma sint_av_fifo_space:
  assumes "fifo_bounded c"
  shows "sint (av_fifo_space (fifo c)) = int (capacity (fifo c) - length (queued (fifo c)))"
  unfolding av_fifo_space_def
  by (rule sint_of_nat_small) (use fifo_boundedD[OF assms] in simp)

lemma av_fifo_generic_write_length:
  "length (queued (snd (av_fifo_generic_write f src n)))
     \<le> length (queued f) + nat (sint n)"
  by (cases src) (simp_all add: av_fifo_generic_write_def Let_def)

lemma av_fifo_generic_write_capacity:
  "capacity (snd (av_fifo_generic_write f src n)) = capacity f"
  by (cases src) (simp_all add: av_fifo_generic_write_def Let_def)

lemma iteration_growth:
  assumes "fifo_bounded c"
  shows "length (queued (fifo (snd (async_buffer_task_iteration r c))))
           \<le> length (queued (fifo c))
              + min 4096 (capacity (fifo c) - length (queued (fifo c)))"
proof -
  let ?space = "av_fifo_space (fifo c)"
  let ?to_copy = "FFMIN 4096 ?space"
  have n: "nat (sint ?to_copy) = min 4096 (capacity (fifo c) - length (queued (fifo c)))"
    by (simp add: sint_FFMIN sint_av_fifo_space[OF assms])
  have w: "length (queued (snd (av_fifo_generic_write (fifo c) (ffurl_read r) ?to_copy)))
             \<le> length (queued (fifo c)) + min 4096 (capacity (fifo c) - length (queued (fifo c)))"
    using av_fifo_generic_write_length[of "fifo c" "ffurl_read r" ?to_copy] by (simp only: n)
  show ?thesis
    using w
    by (simp add: async_buffer_task_iteration_def Let_def av_fifo_reset_def split_beta)
qed

lemma iteration_capacity:
  "capacity (fifo (snd (async_buffer_task_iteration r c))) = capacity (fifo c)"
  by (simp add: async_buffer_task_iteration_def Let_def av_fifo_reset_def split_beta
      av_fifo_generic_write_capacity)

lemma iteration_fifo_bounded:
  assumes "fifo_bounded c"
  shows "fifo_bounded (snd (async_buffer_task_iteration r c))"
proof -
  have le: "length (queued (fifo c)) \<le> capacity (fifo c)"
    and cap: "capacity (fifo c) = unat BUFFER_CAPACITY"
    using assms by (simp_all add: fifo_bounded_def)
  have "length (queued (fifo (snd (async_buffer_task_iteration r c)))) \<le> capacity (fifo c)"
    using iteration_growth[OF assms, of r] le by arith
  then show ?thesis
    by (simp add: fifo_bounded_def iteration_capacity cap)
qed

lemma iteration_frame:
  "logical_pos (snd (async_buffer_task_iteration r c)) = logical_pos c"
  "logical_size (snd (async_buffer_task_iteration r c)) = logical_size c"
  "abort_request (snd (async_buffer_task_iteration r c)) = abort_request c"
  "interrupt_callback (snd (async_buffer_task_iteration r c)) = interrupt_callback c"
  "async_buffer_thread (snd (async_buffer_task_iteration r c)) = async_buffer_thread c"
  by (simp_all add: async_buffer_task_iteration_def Let_def split_beta)

lemma iteration_seek_request:
  "seek_request c = 0 \<Longrightarrow> seek_request (snd (async_buffer_task_iteration r c)) = 0"
  by (simp add: async_buffer_task_iteration_def Let_def split_beta)

subsection \<open>The environment\<close>

lemma env_step_fifo_bounded: "fifo_bounded c \<Longrightarrow> fifo_bounded (env_step e c)"
proof (cases e)
  case (Worker r)
  assume b: "fifo_bounded c"
  have "fifo_bounded (snd (async_buffer_task_iteration r c))"
    by (rule iteration_fifo_bounded[OF b])
  then show ?thesis using b Worker
    by (simp add: split_beta Let_def fifo_bounded_def)
qed (simp_all add: fifo_bounded_def)

lemma env_step_logical_pos: "logical_pos (env_step e c) = logical_pos c"
  by (cases e) (simp_all add: split_beta Let_def iteration_frame)

lemma env_step_logical_size: "logical_size (env_step e c) = logical_size c"
  by (cases e) (simp_all add: split_beta Let_def iteration_frame)

lemma env_step_seek_request: "seek_request c = 0 \<Longrightarrow> seek_request (env_step e c) = 0"
  by (cases e) (simp_all add: split_beta Let_def iteration_seek_request)

lemma pthread_cond_wait_Nil: "pthread_cond_wait [] c = c"
  by (simp add: pthread_cond_wait_def)

lemma pthread_cond_wait_Cons: "pthread_cond_wait (e # w) c = pthread_cond_wait w (env_step e c)"
  by (simp add: pthread_cond_wait_def)

lemma pthread_cond_wait_fifo_bounded:
  "fifo_bounded c \<Longrightarrow> fifo_bounded (pthread_cond_wait w c)"
  by (induction w arbitrary: c)
     (simp_all add: pthread_cond_wait_Nil pthread_cond_wait_Cons env_step_fifo_bounded)

lemma pthread_cond_wait_logical_pos: "logical_pos (pthread_cond_wait w c) = logical_pos c"
  by (induction w arbitrary: c)
     (simp_all add: pthread_cond_wait_Nil pthread_cond_wait_Cons env_step_logical_pos)

lemma pthread_cond_wait_logical_size: "logical_size (pthread_cond_wait w c) = logical_size c"
  by (induction w arbitrary: c)
     (simp_all add: pthread_cond_wait_Nil pthread_cond_wait_Cons env_step_logical_size)

lemma pthread_cond_wait_seek_request:
  "seek_request c = 0 \<Longrightarrow> seek_request (pthread_cond_wait w c) = 0"
  by (induction w arbitrary: c)
     (simp_all add: pthread_cond_wait_Nil pthread_cond_wait_Cons env_step_seek_request)

lemma pass_not_requested:
  "\<not> 0 <s to_read \<Longrightarrow>
   async_read_internal_pass sz rc func (c, dest, to_read, ret) = Leave (ret, dest, c)"
  by (simp add: async_read_internal_pass_def)

lemma pass_cancelled:
  "0 <s to_read \<Longrightarrow> async_interrupt_callback c \<noteq> 0 \<Longrightarrow>
   async_read_internal_pass sz rc func (c, dest, to_read, ret) = Leave (AVERROR_EXIT, dest, c)"
  by (simp add: async_read_internal_pass_def)

lemma pass_eof:
  "0 <s to_read \<Longrightarrow> async_interrupt_callback c = 0 \<Longrightarrow> queued (fifo c) = [] \<Longrightarrow>
   io_eof_reached c \<noteq> 0 \<Longrightarrow>
   async_read_internal_pass sz rc func (c, dest, to_read, ret)
     = Leave (if ret \<le>s 0 then AVERROR_EOF else ret, dest, c)"
  by (simp add: async_read_internal_pass_def av_fifo_size_def FFMIN_def Let_def)

lemma pass_starved:
  "0 <s to_read \<Longrightarrow> async_interrupt_callback c = 0 \<Longrightarrow> queued (fifo c) = [] \<Longrightarrow>
   io_eof_reached c = 0 \<Longrightarrow>
   async_read_internal_pass sz rc func (c, dest, to_read, ret) = Wait (c, dest, to_read, ret)"
  by (simp add: async_read_internal_pass_def av_fifo_size_def FFMIN_def Let_def)

text \<open>The pass that moves bytes.\<close>

lemma pass_drain:
  fixes c :: Context and dest :: "uint8_t list" and func :: copy_func
    and to_read sz rc ret :: c_int
  assumes b: "fifo_bounded c" and t: "0 < sint to_read"
    and i: "async_interrupt_callback c = 0" and q: "queued (fifo c) \<noteq> []"
  defines "k \<equiv> min (nat (sint to_read)) (length (queued (fifo c)))"
  defines "c' \<equiv> c\<lparr>fifo := (fifo c)\<lparr>queued := drop k (queued (fifo c))\<rparr>,
                    logical_pos := logical_pos c + word_of_int (int k)\<rparr>"
  defines "dest' \<equiv> (case func of NULL_func \<Rightarrow> dest @ take k (queued (fifo c))
                     | fifo_do_not_copy_func \<Rightarrow> dest)"
  shows "async_read_internal_pass sz rc func (c, dest, to_read, ret) =
           (if to_read - of_nat k \<le>s 0 \<or> rc = 0 then Leave (sz - (to_read - of_nat k), dest', c')
            else Wait (c', dest', to_read - of_nat k, sz - (to_read - of_nat k)))"
    and "0 < k" and "int k \<le> sint to_read" and "sint (to_read - of_nat k) = sint to_read - int k"
proof -
  let ?to_copy = "FFMIN to_read (av_fifo_size (fifo c))"
  have fs: "sint (av_fifo_size (fifo c)) = int (length (queued (fifo c)))"
    by (rule sint_av_fifo_size[OF b])
  have tc: "sint ?to_copy = int k"
    using t by (simp add: sint_FFMIN fs k_def)
  show kpos: "0 < k" using t q by (simp add: k_def)
  show kle: "int k \<le> sint to_read" using t by (simp add: k_def)
  have tc_eq: "?to_copy = of_nat k"
  proof -
    have "?to_copy = word_of_int (sint ?to_copy)" by simp
    then show ?thesis by (simp only: tc) simp
  qed
  have pos: "0 <s ?to_copy" using kpos by (simp add: word_sless_alt tc)
  have sc: "(scast ?to_copy :: size_t) = word_of_int (int k)"
    by (simp add: scast_c_int_eq tc)
  have sk: "sint (of_nat k :: c_int) = int k" using tc by (simp only: tc_eq)
  show "sint (to_read - of_nat k) = sint to_read - int k"
  proof -
    have "sint (to_read - of_nat k) = sint to_read - sint (of_nat k :: c_int)"
    proof (rule sint_sub_c_int)
      show "- 2147483648 \<le> sint to_read - sint (of_nat k :: c_int)"
        using kle by (simp add: sk)
      show "sint to_read - sint (of_nat k :: c_int) < 2147483648"
        using sint_lt[of to_read] by (simp add: sk)
    qed
    then show ?thesis by (simp only: sk)
  qed
  have nk: "nat (sint ?to_copy) = k" by (simp add: tc)
  show "async_read_internal_pass sz rc func (c, dest, to_read, ret) =
           (if to_read - of_nat k \<le>s 0 \<or> rc = 0 then Leave (sz - (to_read - of_nat k), dest', c')
            else Wait (c', dest', to_read - of_nat k, sz - (to_read - of_nat k)))"
    using t i pos
    by (simp add: async_read_internal_pass_def Let_def word_sless_alt av_fifo_generic_read_def
        nk sc c'_def dest'_def) (simp add: tc_eq)
qed

subsection \<open>The read loop\<close>

lemma AVERROR_sint: "sint AVERROR_EOF = - 541478725" "sint AVERROR_EXIT = - 1414092869"
  by (simp_all add: AVERROR_EOF_def AVERROR_EXIT_def)

lemma AVERROR_distinct: "AVERROR_EOF \<noteq> AVERROR_EXIT"
  by (simp add: AVERROR_EOF_def AVERROR_EXIT_def)

lemma pass_inv:
  fixes c :: Context and dest :: "uint8_t list" and func :: copy_func
    and to_read sz rc ret :: c_int and lp0 :: size_t
  assumes inv: "read_inv sz rc func lp0 (c, dest, to_read, ret)"
  shows "case async_read_internal_pass sz rc func (c, dest, to_read, ret) of
           Leave (r, d, c') \<Rightarrow> read_outcome sz rc func lp0 r d c'
         | Wait st' \<Rightarrow> read_inv sz rc func lp0 st'"
proof -
  from inv have b: "fifo_bounded c" and t: "0 < sint to_read" and tsz: "sint to_read \<le> sint sz"
    and r: "sint ret = sint sz - sint to_read"
    and lp: "logical_pos c = lp0 + word_of_int (sint sz - sint to_read)"
    and rc0: "rc = 0 \<Longrightarrow> to_read = sz"
    and dn: "func = NULL_func \<Longrightarrow> int (length dest) = sint sz - sint to_read"
    and dd: "func = fifo_do_not_copy_func \<Longrightarrow> dest = []"
    by (simp_all add: read_inv_def)
  have ts: "0 <s to_read" using t by (simp add: word_sless_alt)
  show ?thesis
  proof (cases "async_interrupt_callback c = 0")
    case False
    have "read_outcome sz rc func lp0 AVERROR_EXIT dest c"
      unfolding read_outcome_def
      using b False t tsz lp rc0 dn dd
      by (intro conjI exI[where x = "sint sz - sint to_read"]) auto
    then show ?thesis using False ts by (simp add: pass_cancelled)
  next
    case i: True
    show ?thesis
    proof (cases "queued (fifo c) = []")
      case q: True
      show ?thesis
      proof (cases "io_eof_reached c = 0")
        case True
        then show ?thesis using inv ts i q by (simp add: pass_starved)
      next
        case e: False
        show ?thesis
        proof (cases "ret \<le>s 0")
          case True
          then have "sint sz - sint to_read = 0" using r tsz by (simp add: word_sle_eq)
          then have "read_outcome sz rc func lp0 AVERROR_EOF dest c"
            unfolding read_outcome_def
            using b i q e t tsz lp dn dd
            by (intro conjI exI[where x = 0]) auto
          then show ?thesis using True ts i q e by (simp add: pass_eof)
        next
          case False
          then have p: "0 < sint ret" by (simp add: word_sle_eq)
          have "read_outcome sz rc func lp0 ret dest c"
            unfolding read_outcome_def
            using b i q e t tsz lp dn dd p r
            by (intro conjI exI[where x = "sint sz - sint to_read"]) auto
          then show ?thesis using False ts i q e by (simp add: pass_eof)
        qed
      qed
    next
      case q: False
      define k where "k = min (nat (sint to_read)) (length (queued (fifo c)))"
      define c' where "c' = c\<lparr>fifo := (fifo c)\<lparr>queued := drop k (queued (fifo c))\<rparr>,
                    logical_pos := logical_pos c + word_of_int (int k)\<rparr>"
      define dest' where "dest' = (case func of NULL_func \<Rightarrow> dest @ take k (queued (fifo c))
                     | fifo_do_not_copy_func \<Rightarrow> dest)"
      define to_read' where "to_read' = to_read - of_nat k"
      note d = pass_drain(1)[OF b t i q, where sz = sz and rc = rc and func = func
          and dest = dest and ret = ret, folded k_def, folded c'_def dest'_def to_read'_def]
      have kpos: "0 < k" and kle: "int k \<le> sint to_read"
        and tr: "sint to_read' = sint to_read - int k"
        using pass_drain(2,3,4)[OF b t i q, folded k_def, folded to_read'_def] by simp_all
      have klen: "k \<le> length (queued (fifo c))" by (simp add: k_def)
      have b': "fifo_bounded c'"
        using b by (auto simp: fifo_bounded_def c'_def)
      have lp': "logical_pos c' = lp0 + word_of_int (sint sz - sint to_read')"
        by (simp add: c'_def lp tr)
      have rt: "sint (sz - to_read') = sint sz - sint to_read'"
      proof (rule sint_sub_c_int)
        show "- 2147483648 \<le> sint sz - sint to_read'" using tr kle tsz by simp
        show "sint sz - sint to_read' < 2147483648"
          using sint_lt[of sz] tr kle by simp
      qed
      have dn': "func = NULL_func \<Longrightarrow> int (length dest') = sint sz - sint to_read'"
        using dn klen by (simp add: dest'_def tr)
      have dd': "func = fifo_do_not_copy_func \<Longrightarrow> dest' = []"
        using dd by (simp add: dest'_def)
      have t'le: "sint to_read' \<le> sint sz" and t'lt: "sint to_read' < sint sz"
        and t'ge: "0 \<le> sint to_read'"
        using tr kle tsz kpos by simp_all
      show ?thesis
      proof (cases "to_read' \<le>s 0 \<or> rc = 0")
        case True
        have full: "rc \<noteq> 0 \<Longrightarrow> sint sz - sint to_read' = sint sz"
          using True t'ge by (auto simp: word_sle_eq)
        have "read_outcome sz rc func lp0 (sz - to_read') dest' c'"
          unfolding read_outcome_def
          using b' lp' dn' dd' rt t'le t'lt t'ge full
          by (intro conjI exI[where x = "sint sz - sint to_read'"]) auto
        then show ?thesis using True d by simp
      next
        case False
        then have "0 < sint to_read'" and "rc \<noteq> 0" by (simp_all add: word_sle_eq)
        then have "read_inv sz rc func lp0 (c', dest', to_read', sz - to_read')"
          using b' lp' dn' dd' rt t'le by (simp add: read_inv_def)
        then show ?thesis using False d by simp
      qed
    qed
  qed
qed

lemma read_inv_wait:
  "read_inv sz rc func lp0 (c, dest, to_read, ret) \<Longrightarrow>
   read_inv sz rc func lp0 (pthread_cond_wait w c, dest, to_read, ret)"
  by (simp add: read_inv_def pthread_cond_wait_fifo_bounded pthread_cond_wait_logical_pos)

lemma loop_outcome:
  assumes "read_inv sz rc func lp0 st"
    and "async_read_internal_loop sz rc func sched st = Some (r, d, c', s')"
  shows "read_outcome sz rc func lp0 r d c'"
  using assms
proof (induction sched arbitrary: st)
  case Nil
  obtain c dest to_read ret where st: "st = (c, dest, to_read, ret)" by (cases st)
  from pass_inv[OF Nil(1)[unfolded st]] Nil(2) show ?case
    by (auto simp: st split: pass.splits)
next
  case (Cons w ws)
  obtain c dest to_read ret where st: "st = (c, dest, to_read, ret)" by (cases st)
  note p = pass_inv[OF Cons(2)[unfolded st]]
  show ?case
  proof (cases "async_read_internal_pass sz rc func (c, dest, to_read, ret)")
    case (Leave x)
    then show ?thesis using p Cons(3) by (auto simp: st)
  next
    case (Wait st')
    obtain c1 dest1 to_read1 ret1 where st': "st' = (c1, dest1, to_read1, ret1)" by (cases st')
    have "read_inv sz rc func lp0 (pthread_cond_wait w c1, dest1, to_read1, ret1)"
      using p Wait by (simp add: st' read_inv_wait)
    moreover have "async_read_internal_loop sz rc func ws
                     (pthread_cond_wait w c1, dest1, to_read1, ret1) = Some (r, d, c', s')"
      using Cons(3) Wait by (simp add: st st')
    ultimately show ?thesis by (rule Cons.IH)
  qed
qed

lemma read_nothing_requested:
  "\<not> 0 <s sz \<Longrightarrow> async_read_internal sched c sz rc func = Some (0, [], c, sched)"
  by (cases sched) (simp_all add: async_read_internal_def pass_not_requested)

lemma read_outcome_top:
  assumes "fifo_bounded c" and "0 <s sz"
    and "async_read_internal sched c sz rc func = Some (r, d, c', s')"
  shows "read_outcome sz rc func (logical_pos c) r d c'"
proof -
  have "read_inv sz rc func (logical_pos c) (c, [], sz, 0)"
    using assms(1,2) by (simp add: read_inv_def word_sless_alt)
  then show ?thesis
    using assms(3) unfolding async_read_internal_def by (rule loop_outcome)
qed

text \<open>A read leaves a clear seek mailbox clear.\<close>

lemma pass_seek_request:
  "async_read_internal_pass sz rc func (c, dest, to_read, ret) = Leave (r, d, c') \<Longrightarrow>
   seek_request c' = seek_request c"
  "async_read_internal_pass sz rc func (c, dest, to_read, ret) = Wait (c1, d1, t1, r1) \<Longrightarrow>
   seek_request c1 = seek_request c"
  by (auto simp: async_read_internal_pass_def Let_def av_fifo_generic_read_def
      split: if_splits)

lemma loop_seek_request:
  assumes "seek_request (fst st) = 0"
    and "async_read_internal_loop sz rc func sched st = Some (r, d, c', s')"
  shows "seek_request c' = 0"
  using assms
proof (induction sched arbitrary: st)
  case Nil
  obtain c dest to_read ret where st: "st = (c, dest, to_read, ret)" by (cases st)
  show ?case using Nil pass_seek_request(1)[of sz rc func c dest to_read ret]
    by (auto simp: st split: pass.splits)
next
  case (Cons w ws)
  obtain c dest to_read ret where st: "st = (c, dest, to_read, ret)" by (cases st)
  show ?case
  proof (cases "async_read_internal_pass sz rc func (c, dest, to_read, ret)")
    case (Leave x)
    then show ?thesis using Cons(2,3) pass_seek_request(1)[of sz rc func c dest to_read ret]
      by (auto simp: st split: prod.splits)
  next
    case (Wait st')
    obtain c1 dest1 to_read1 ret1 where st': "st' = (c1, dest1, to_read1, ret1)" by (cases st')
    have "seek_request c1 = 0"
      using pass_seek_request(2)[OF Wait[unfolded st']] Cons(2) by (simp add: st)
    then have "seek_request (fst (pthread_cond_wait w c1, dest1, to_read1, ret1)) = 0"
      by (simp add: pthread_cond_wait_seek_request)
    moreover have "async_read_internal_loop sz rc func ws
                     (pthread_cond_wait w c1, dest1, to_read1, ret1) = Some (r, d, c', s')"
      using Cons(3) Wait by (simp add: st st')
    ultimately show ?thesis by (rule Cons.IH)
  qed
qed

lemma read_outcome_cases:
  assumes "read_outcome sz rc func lp0 r d c'"
  obtains (aborted) n where "r = AVERROR_EXIT" "async_interrupt_callback c' \<noteq> 0"
      "0 \<le> n" "n < sint sz" "rc = 0 \<Longrightarrow> n = 0" "logical_pos c' = lp0 + word_of_int n"
      "func = NULL_func \<Longrightarrow> int (length d) = n" "func = fifo_do_not_copy_func \<Longrightarrow> d = []"
    | (eof) "r = AVERROR_EOF" "io_eof_reached c' \<noteq> 0" "queued (fifo c') = []"
      "async_interrupt_callback c' = 0" "logical_pos c' = lp0" "d = []" "0 \<le> sint sz"
    | (moved) n where "0 < n" "n \<le> sint sz" "sint r = n" "logical_pos c' = lp0 + word_of_int n"
      "func = NULL_func \<Longrightarrow> int (length d) = n" "func = fifo_do_not_copy_func \<Longrightarrow> d = []"
      "rc \<noteq> 0 \<Longrightarrow> n = sint sz \<or> (io_eof_reached c' \<noteq> 0 \<and> queued (fifo c') = [])"
proof -
  from assms obtain n where n: "0 \<le> n" "n \<le> sint sz" "logical_pos c' = lp0 + word_of_int n"
    "func = NULL_func \<longrightarrow> int (length d) = n" "func = fifo_do_not_copy_func \<longrightarrow> d = []"
    and alt: "(r = AVERROR_EXIT \<and> async_interrupt_callback c' \<noteq> 0 \<and> n < sint sz
               \<and> (rc = 0 \<longrightarrow> n = 0))
            \<or> (r = AVERROR_EOF \<and> n = 0 \<and> io_eof_reached c' \<noteq> 0 \<and> queued (fifo c') = []
               \<and> async_interrupt_callback c' = 0)
            \<or> (0 < n \<and> sint r = n
               \<and> (rc \<noteq> 0 \<longrightarrow>
                    n = sint sz \<or> (io_eof_reached c' \<noteq> 0 \<and> queued (fifo c') = [])))"
    unfolding read_outcome_def by blast
  from alt consider
      "r = AVERROR_EXIT \<and> async_interrupt_callback c' \<noteq> 0 \<and> n < sint sz \<and> (rc = 0 \<longrightarrow> n = 0)"
    | "r = AVERROR_EOF \<and> n = 0 \<and> io_eof_reached c' \<noteq> 0 \<and> queued (fifo c') = []
               \<and> async_interrupt_callback c' = 0"
    | "0 < n \<and> sint r = n
               \<and> (rc \<noteq> 0 \<longrightarrow>
                    n = sint sz \<or> (io_eof_reached c' \<noteq> 0 \<and> queued (fifo c') = []))"
    by blast
  then show thesis
  proof cases
    case 1
    then show ?thesis using n by (intro aborted[of n]) simp_all
  next
    case 2
    have "d = []" using n(4,5) 2 by (cases func) simp_all
    then show ?thesis using n 2 by (intro eof) simp_all
  next
    case 3
    then show ?thesis using n by (intro moved[of n]) simp_all
  qed
qed

subsection \<open>Seeking without a known size\<close>

lemma async_seek_rejects:
  assumes "whence = SEEK_SET \<or> whence = SEEK_CUR"
    and "\<not> seek_target c pos whence <s 0"
    and "seek_target c pos whence \<noteq> logical_pos c"
    and "\<not> (logical_pos c < seek_target c pos whence \<and>
            seek_target c pos whence
              < logical_pos c + scast (av_fifo_size (fifo c)) + scast SHORT_SEEK_THRESHOLD)"
    and "logical_size c = 0 \<or> logical_size c < seek_target c pos whence"
  shows "async_seek sched c pos whence = Some (scast AVERROR_EINVAL, c, sched)"
  using assms
  by (auto simp: async_seek_def seek_target_def Let_def SEEK_SET_def SEEK_CUR_def AVSEEK_SIZE_def)

text \<open>
  C2. The claim: a seek outside the fast-seek window returns the invalid-argument error,
  and posts no request, when the total size recorded at open is unknown or the target
  exceeds it. The code does this only for a recorded size of 0 and for a target beyond
  the recorded size (\<open>async_seek_rejects\<close>). \<^verbatim>\<open>logical_size\<close> is a \<^verbatim>\<open>size_t\<close>: when
  \<^verbatim>\<open>ffurl_size\<close> reports an unknown size by a negative error code (here \<open>- 38\<close>), the
  field holds a huge unsigned number, the test \<^verbatim>\<open>c->logical_size <= 0\<close> is false and no
  target exceeds the size. Below, the stream is opened with an unknown size; a seek to
  1000000 then posts a request and waits (it has no result while no wake-up comes), and
  returns the worker's answer once the worker has served the request.
\<close>

theorem async_seek_unknown_size_posts_request:
  "async_open None (example_calls\<lparr>ffurl_size_ret := - 38\<rparr>)
     = Inr (example_context\<lparr>logical_size := - 38\<rparr>)
   \<and> async_seek [] (example_context\<lparr>logical_size := - 38\<rparr>) 1000000 SEEK_SET = None
   \<and> async_seek [[Worker (Reply 1000000 (Data []))]]
         (example_context\<lparr>logical_size := - 38\<rparr>) 1000000 SEEK_SET
       = Some (1000000,
               example_context\<lparr>logical_size := - 38, seek_pos := 1000000, seek_completed := 1,
                                seek_ret := 1000000, logical_pos := 1000000\<rparr>,
               [])"
  by (simp add: model_defs)

subsection \<open>The worker serving a seek\<close>

lemma iteration_services_seek:
  fixes r :: inner_reply
  assumes "async_interrupt_callback c = 0" and "seek_request c \<noteq> 0"
  defines "ret \<equiv> (ucast (ffurl_seek r) :: c_int)"
  shows "async_buffer_task_iteration r c =
           (True, c\<lparr>io_eof_reached := (if ret <s 0 then 1 else 0),
                     io_error := (if ret <s 0 then ret else 0),
                     seek_completed := 1, seek_ret := scast ret, seek_request := 0,
                     fifo := av_fifo_reset (fifo c)\<rparr>)"
  using assms(1,2) by (simp add: async_buffer_task_iteration_def Let_def ret_def)

text \<open>
  C5. The claim: an iteration of the worker that finds a seek pending calls the source's
  seek, records EOF and the error on failure and clears both on success, marks the
  request completed with the source's result, clears the pending flag and empties the
  buffer, without filling it. The code does this with the source's result truncated to
  an \<^verbatim>\<open>int\<close> (\<open>iteration_services_seek\<close>): the local \<^verbatim>\<open>ret\<close> that receives the
  \<^verbatim>\<open>int64_t\<close> result of \<^verbatim>\<open>ffurl_seek\<close> is an \<^verbatim>\<open>int\<close>. Below, the source seeks to offset
  \<open>2 ^ 31\<close> with success; the worker records a failure, with the error and the result
  \<open>- (2 ^ 31)\<close>.
\<close>

theorem async_buffer_task_truncates_seek_result:
  "async_buffer_task_iteration (Reply 2147483648 (Data []))
     (example_context\<lparr>logical_size := 4294967296, seek_request := 1, seek_pos := 2147483648\<rparr>)
   = (True,
      example_context\<lparr>logical_size := 4294967296, seek_request := 0, seek_pos := 2147483648,
                       seek_completed := 1, seek_ret := - 2147483648,
                       io_eof_reached := 1, io_error := - 2147483648\<rparr>)"
  by (simp add: model_defs)

theorem async_buffer_task_truncates_seek_result_witness:
  "io_eof_reached
     (snd (async_buffer_task_iteration (Reply 2147483648 (Data []))
        (example_context\<lparr>logical_size := 4294967296, seek_request := 1,
                         seek_pos := 2147483648\<rparr>))) = 1
   \<and> seek_ret
     (snd (async_buffer_task_iteration (Reply 2147483648 (Data []))
        (example_context\<lparr>logical_size := 4294967296, seek_request := 1,
                         seek_pos := 2147483648\<rparr>))) = - 2147483648"
  using async_buffer_task_truncates_seek_result by simp

subsection \<open>Cancellation of a read\<close>

text \<open>
  C3. The claim: when the read loop observes cancellation, the call returns the aborted
  sentinel only if it has delivered no bytes; after a delivery it returns the count. The
  code assigns \<^verbatim>\<open>AVERROR_EXIT\<close> to \<^verbatim>\<open>ret\<close> whatever \<^verbatim>\<open>ret\<close> holds. Below, a
  complete read of 2 bytes finds 1 byte, moves it, waits, and is then aborted: it returns
  the aborted sentinel, with \<^verbatim>\<open>logical_pos\<close> advanced by the byte it moved.
\<close>

theorem async_read_internal_abort_discards_count:
  "async_read_internal [[Close_abort]]
     (example_context\<lparr>fifo := \<lparr>queued = [7], capacity = 4194304\<rparr>\<rparr>) 2 1 fifo_do_not_copy_func
   = Some (AVERROR_EXIT, [], example_context\<lparr>logical_pos := 1, abort_request := 1\<rparr>, [])"
  by (simp add: model_defs)

text \<open>
  C3, as the code has it: a pass of the read loop that observes cancellation leaves the
  loop with the aborted sentinel, whatever count \<^verbatim>\<open>ret\<close> holds; a call that returns the
  aborted sentinel has observed cancellation, and in the ordinary mode
  (\<^verbatim>\<open>read_complete\<close> is 0) it has delivered no byte and left \<^verbatim>\<open>logical_pos\<close> alone.
\<close>

theorem async_read_internal_cancellation:
  "(0 <s to_read \<and> async_interrupt_callback c \<noteq> 0 \<longrightarrow>
      async_read_internal_pass sz rc func (c, dest, to_read, ret) = Leave (AVERROR_EXIT, dest, c))
   \<and> (fifo_bounded c \<and> async_read_internal sched c sz rc func = Some (AVERROR_EXIT, d, c', s') \<longrightarrow>
        async_interrupt_callback c' \<noteq> 0
        \<and> (rc = 0 \<longrightarrow> logical_pos c' = logical_pos c \<and> d = []))"
proof (intro conjI impI)
  assume "0 <s to_read \<and> async_interrupt_callback c \<noteq> 0"
  then show "async_read_internal_pass sz rc func (c, dest, to_read, ret)
               = Leave (AVERROR_EXIT, dest, c)"
    by (simp add: pass_cancelled)
next
  assume a: "fifo_bounded c \<and> async_read_internal sched c sz rc func = Some (AVERROR_EXIT, d, c', s')"
  have pos: "0 <s sz"
  proof (rule ccontr)
    assume "\<not> 0 <s sz"
    from read_nothing_requested[OF this, of sched c rc func] a show False
      by (simp add: AVERROR_EXIT_def)
  qed
  from a have b: "fifo_bounded c"
    and e: "async_read_internal sched c sz rc func = Some (AVERROR_EXIT, d, c', s')"
    by simp_all
  have out: "read_outcome sz rc func (logical_pos c) AVERROR_EXIT d c'"
    by (rule read_outcome_top[OF b pos e])
  from out show "async_interrupt_callback c' \<noteq> 0"
    by (cases rule: read_outcome_cases) (simp_all add: AVERROR_distinct[symmetric] AVERROR_sint)
  assume rc: "rc = 0"
  from out show "logical_pos c' = logical_pos c"
    by (cases rule: read_outcome_cases)
       (use rc in \<open>simp_all add: AVERROR_distinct[symmetric] AVERROR_sint\<close>)
  from out show "d = []"
    by (cases rule: read_outcome_cases; cases func)
       (use rc in \<open>simp_all add: AVERROR_distinct[symmetric] AVERROR_sint\<close>)
qed

theorem async_read_internal_cancellation_witness:
  "0 <s (2 :: c_int)
   \<and> async_interrupt_callback (example_context\<lparr>abort_request := 1\<rparr>) \<noteq> 0
   \<and> async_read_internal_pass 4 0 NULL_func
        (example_context\<lparr>abort_request := 1\<rparr>, [], 2, 2)
      = Leave (AVERROR_EXIT, [], example_context\<lparr>abort_request := 1\<rparr>)
   \<and> fifo_bounded (example_context\<lparr>abort_request := 1\<rparr>)
   \<and> async_read_internal [] (example_context\<lparr>abort_request := 1\<rparr>) 4 0 NULL_func
      = Some (AVERROR_EXIT, [], example_context\<lparr>abort_request := 1\<rparr>, [])
   \<and> logical_pos (example_context\<lparr>abort_request := 1\<rparr>) = logical_pos example_context"
  using async_read_internal_cancellation[where to_read = 2
      and c = "example_context\<lparr>abort_request := 1\<rparr>" and sz = 4 and rc = 0
      and func = NULL_func and dest = "[]" and ret = 2 and sched = "[]" and d = "[]"
      and c' = "example_context\<lparr>abort_request := 1\<rparr>" and s' = "[]"]
  by (simp add: model_defs)

subsection \<open>What a read returns\<close>

lemma sint_scast_c_int: "sint (scast (x :: c_int) :: int64_t) = sint x"
  by (rule sint_up_scast) (simp add: is_up)

lemma scast_sless_0: "(scast (x :: c_int) :: int64_t) <s 0 \<longleftrightarrow> x <s 0"
  by (simp add: word_sless_alt sint_scast_c_int)

lemma scast_sle_0: "0 \<le>s (scast (x :: c_int) :: int64_t) \<longleftrightarrow> 0 \<le>s x"
  by (simp add: word_sle_eq sint_scast_c_int)

text \<open>An ordinary read waits only while it is starved.\<close>

lemma pthread_cond_wait_append:
  "pthread_cond_wait (w @ v) c = pthread_cond_wait v (pthread_cond_wait w c)"
  by (simp add: pthread_cond_wait_def)

lemma ordinary_pass_waits:
  assumes b: "fifo_bounded c"
    and w: "async_read_internal_pass sz 0 func (c, dest, to_read, ret) = Wait st'"
  shows "st' = (c, dest, to_read, ret) \<and> 0 <s to_read \<and> async_interrupt_callback c = 0
         \<and> queued (fifo c) = [] \<and> io_eof_reached c = 0"
proof -
  have t: "0 <s to_read"
  proof (rule ccontr)
    assume "\<not> 0 <s to_read"
    then show False using w by (simp add: pass_not_requested)
  qed
  have i: "async_interrupt_callback c = 0"
  proof (rule ccontr)
    assume "async_interrupt_callback c \<noteq> 0"
    then show False using w t by (simp add: pass_cancelled)
  qed
  have q: "queued (fifo c) = []"
  proof (rule ccontr)
    assume "queued (fifo c) \<noteq> []"
    from pass_drain(1)[OF b _ i this, where to_read = to_read and sz = sz and rc = 0
        and func = func and dest = dest and ret = ret] t w
    show False by (simp add: word_sless_alt)
  qed
  have e: "io_eof_reached c = 0"
  proof (rule ccontr)
    assume "io_eof_reached c \<noteq> 0"
    then show False using w t i q by (simp add: pass_eof)
  qed
  show ?thesis using w t i q e by (simp add: pass_starved)
qed

lemma ordinary_read_blocks_only_when_starved:
  assumes "fifo_bounded c"
    and "async_read_internal_loop sz 0 func sched (c, dest, to_read, ret) = None"
  shows "0 <s to_read
       \<and> async_interrupt_callback (pthread_cond_wait (concat sched) c) = 0
       \<and> queued (fifo (pthread_cond_wait (concat sched) c)) = []
       \<and> io_eof_reached (pthread_cond_wait (concat sched) c) = 0"
  using assms
proof (induction sched arbitrary: c)
  case Nil
  then obtain st' where "async_read_internal_pass sz 0 func (c, dest, to_read, ret) = Wait st'"
    by (auto split: pass.splits)
  from ordinary_pass_waits[OF Nil(1) this] show ?case
    by (simp add: pthread_cond_wait_Nil)
next
  case (Cons w ws)
  from Cons(3) obtain st' where
    p: "async_read_internal_pass sz 0 func (c, dest, to_read, ret) = Wait st'"
    by (auto split: pass.splits)
  from ordinary_pass_waits[OF Cons(2) p] have st': "st' = (c, dest, to_read, ret)" by simp
  have "async_read_internal_loop sz 0 func ws (pthread_cond_wait w c, dest, to_read, ret) = None"
    using Cons(3) p by (simp add: st')
  from Cons.IH[OF pthread_cond_wait_fifo_bounded[OF Cons(2)] this] show ?case
    by (simp add: pthread_cond_wait_append)
qed

lemma async_read_blocks_only_when_starved:
  assumes "fifo_bounded c" and "async_read sched c sz = None"
  shows "0 <s sz
       \<and> async_interrupt_callback (pthread_cond_wait (concat sched) c) = 0
       \<and> queued (fifo (pthread_cond_wait (concat sched) c)) = []
       \<and> io_eof_reached (pthread_cond_wait (concat sched) c) = 0"
  using assms unfolding async_read_def async_read_internal_def
  by (rule ordinary_read_blocks_only_when_starved)










subsection \<open>End of stream\<close>

lemma iteration_clears_eof:
  assumes "io_eof_reached c \<noteq> 0"
    and "io_eof_reached (snd (async_buffer_task_iteration rep c)) = 0"
  shows "async_interrupt_callback c = 0 \<and> seek_request c \<noteq> 0
         \<and> \<not> (ucast (ffurl_seek rep) :: c_int) <s 0
         \<and> seek_completed (snd (async_buffer_task_iteration rep c)) = 1
         \<and> 0 \<le>s seek_ret (snd (async_buffer_task_iteration rep c))"
proof -
  have i: "async_interrupt_callback c = 0"
    using assms by (auto simp: async_buffer_task_iteration_def split: if_splits)
  have s: "seek_request c \<noteq> 0"
    using assms i by (auto simp: async_buffer_task_iteration_def Let_def split: if_splits)
  note eq = iteration_services_seek[OF i s, of rep]
  have n: "\<not> (ucast (ffurl_seek rep) :: c_int) <s 0"
    using assms(2) unfolding eq by (auto split: if_splits)
  then have "0 \<le>s (ucast (ffurl_seek rep) :: c_int)"
    by (simp add: word_sle_eq word_sless_alt)
  then have "0 \<le>s (scast (ucast (ffurl_seek rep) :: c_int) :: int64_t)"
    by (simp only: scast_sle_0)
  then show ?thesis using i s n unfolding eq by simp
qed

lemma pass_io_eof_reached:
  "async_read_internal_pass sz rc func (c, dest, to_read, ret) = Leave (r, d, c') \<Longrightarrow>
   io_eof_reached c' = io_eof_reached c"
  "async_read_internal_pass sz rc func (c, dest, to_read, ret) = Wait (c1, d1, t1, r1) \<Longrightarrow>
   io_eof_reached c1 = io_eof_reached c"
  by (auto simp: async_read_internal_pass_def Let_def av_fifo_generic_read_def
      split: if_splits)

lemma seek_pass_io_eof_reached:
  "async_seek_pass c = Leave (r, c') \<Longrightarrow> io_eof_reached c' = io_eof_reached c"
  by (auto simp: async_seek_pass_def split: if_splits)

lemma step_clears_eof:
  assumes "step c c1" and "io_eof_reached c \<noteq> 0" and "io_eof_reached c1 = 0"
  shows "\<exists>rep. c1 = env_step (Worker rep) c \<and> seek_request c \<noteq> 0
           \<and> async_interrupt_callback c = 0 \<and> \<not> (ucast (ffurl_seek rep) :: c_int) <s 0
           \<and> seek_completed c1 = 1 \<and> 0 \<le>s seek_ret c1"
  using assms
proof (cases rule: step.cases)
  case (environment e)
  show ?thesis
  proof (cases e)
    case (Worker rep)
    have run: "async_buffer_thread c = Running"
      using assms(2,3) environment Worker by (auto split: if_splits)
    obtain continue c2 where it: "async_buffer_task_iteration rep c = (continue, c2)"
      by (cases "async_buffer_task_iteration rep c")
    have c1: "io_eof_reached c1 = io_eof_reached c2" "seek_completed c1 = seek_completed c2"
      "seek_ret c1 = seek_ret c2"
      using environment Worker run it by (auto split: if_splits)
    have "io_eof_reached (snd (async_buffer_task_iteration rep c)) = 0"
      using assms(3) c1 it by simp
    from iteration_clears_eof[OF assms(2) this] show ?thesis
      using environment Worker c1 it by (intro exI[where x = rep]) auto
  next
    case (Interrupt v)
    then show ?thesis using assms(2,3) environment by simp
  next
    case Close_abort
    then show ?thesis using assms(2,3) environment by simp
  qed
next
  case (read_leaves sz rc func dest to_read ret r d)
  then show ?thesis using assms(2,3) pass_io_eof_reached(1) by metis
next
  case (read_waits sz rc func dest to_read ret d t r)
  then show ?thesis using assms(2,3) pass_io_eof_reached(2) by metis
next
  case (seek_posts p)
  then show ?thesis using assms(2,3) by simp
next
  case (seek_leaves r)
  then show ?thesis using assms(2,3) seek_pass_io_eof_reached by metis
qed

lemma read_at_eof:
  assumes "io_eof_reached c \<noteq> 0" and "queued (fifo c) = []"
  shows "async_read_internal sched c sz rc func =
           Some (if \<not> 0 <s sz then 0
                 else if async_interrupt_callback c \<noteq> 0 then AVERROR_EXIT else AVERROR_EOF,
                 [], c, sched)"
proof (cases "0 <s sz")
  case False
  then show ?thesis by (simp add: read_nothing_requested)
next
  case True
  show ?thesis
  proof (cases "async_interrupt_callback c = 0")
    case True
    with \<open>0 <s sz\<close> assms show ?thesis
      by (cases sched) (simp_all add: async_read_internal_def pass_eof)
  next
    case False
    with \<open>0 <s sz\<close> show ?thesis
      by (cases sched) (simp_all add: async_read_internal_def pass_cancelled)
  qed
qed

lemma read_buffered:
  assumes b: "fifo_bounded c" and p: "0 <s sz" and i: "async_interrupt_callback c = 0"
    and q: "queued (fifo c) \<noteq> []"
  defines "k \<equiv> min (nat (sint sz)) (length (queued (fifo c)))"
  shows "async_read sched c sz =
           Some (of_nat k, take k (queued (fifo c)),
                 c\<lparr>fifo := (fifo c)\<lparr>queued := drop k (queued (fifo c))\<rparr>,
                   logical_pos := logical_pos c + word_of_int (int k)\<rparr>,
                 sched)"
    and "0 < k"
proof -
  have t: "0 < sint sz" using p by (simp add: word_sless_alt)
  note d = pass_drain(1)[OF b t i q, where sz = sz and rc = 0 and func = NULL_func
      and dest = "[]" and ret = 0, folded k_def]
  show "0 < k" using pass_drain(2)[OF b t i q, folded k_def] .
  have "sz - (sz - of_nat k) = (of_nat k :: c_int)" by simp
  then show "async_read sched c sz =
           Some (of_nat k, take k (queued (fifo c)),
                 c\<lparr>fifo := (fifo c)\<lparr>queued := drop k (queued (fifo c))\<rparr>,
                   logical_pos := logical_pos c + word_of_int (int k)\<rparr>,
                 sched)"
    using d by (cases sched) (simp_all add: async_read_def async_read_internal_def)
qed

text \<open>
  C7. The claim: EOF is sticky, and while it is set and the buffer is empty every read
  returns the EOF sentinel. The code tests cancellation first: below, EOF is recorded,
  the buffer is empty and \<^verbatim>\<open>abort_request\<close> is set; the read returns the aborted
  sentinel.
\<close>

theorem async_read_at_eof_aborted:
  "async_read [] (example_context\<lparr>io_eof_reached := 1, abort_request := 1\<rparr>) 4
     = Some (AVERROR_EXIT, [], example_context\<lparr>io_eof_reached := 1, abort_request := 1\<rparr>, [])
   \<and> AVERROR_EXIT \<noteq> AVERROR_EOF"
  by (simp add: model_defs)

text \<open>
  C7, as the code has it. (1) A step of either thread clears \<^verbatim>\<open>io_eof_reached\<close> only
  when it is an iteration of the worker that serves a pending seek request with a
  non-negative result (as the worker's \<^verbatim>\<open>int\<close> holds it). (2) While EOF is recorded and
  the buffer is empty, a read returns at once, using no wake-up and changing nothing: the
  EOF sentinel, or the aborted sentinel when cancellation is signalled, or 0 when no
  byte is requested; never a positive count. (3) A read that returns the EOF sentinel
  leaves the buffer empty and has delivered nothing. (4) While EOF is recorded and the
  buffer holds data, a read of a positive size without cancellation delivers buffered
  bytes at once.
\<close>

theorem eof_persists_until_seek_succeeds:
  "(\<forall>c c1. step c c1 \<and> io_eof_reached c \<noteq> 0 \<and> io_eof_reached c1 = 0 \<longrightarrow>
      (\<exists>rep. c1 = env_step (Worker rep) c \<and> seek_request c \<noteq> 0
         \<and> async_interrupt_callback c = 0 \<and> \<not> (ucast (ffurl_seek rep) :: c_int) <s 0
         \<and> seek_completed c1 = 1 \<and> 0 \<le>s seek_ret c1))
   \<and> (\<forall>c sched sz. io_eof_reached c \<noteq> 0 \<and> queued (fifo c) = [] \<longrightarrow>
        async_read sched c sz =
          Some (if \<not> 0 <s sz then 0
                else if async_interrupt_callback c \<noteq> 0 then AVERROR_EXIT else AVERROR_EOF,
                [], c, sched))
   \<and> (\<forall>c sched sz d c' s'.
        fifo_bounded c \<and> async_read sched c sz = Some (AVERROR_EOF, d, c', s') \<longrightarrow>
        io_eof_reached c' \<noteq> 0 \<and> queued (fifo c') = [] \<and> d = []
        \<and> logical_pos c' = logical_pos c)
   \<and> (\<forall>c sched sz.
        fifo_bounded c \<and> io_eof_reached c \<noteq> 0 \<and> queued (fifo c) \<noteq> [] \<and> 0 <s sz
        \<and> async_interrupt_callback c = 0 \<longrightarrow>
        (\<exists>k. k = min (nat (sint sz)) (length (queued (fifo c))) \<and> 0 < k
           \<and> async_read sched c sz =
               Some (of_nat k, take k (queued (fifo c)),
                     c\<lparr>fifo := (fifo c)\<lparr>queued := drop k (queued (fifo c))\<rparr>,
                       logical_pos := logical_pos c + word_of_int (int k)\<rparr>,
                     sched)))"
proof -
  have p1: "\<forall>c c1. step c c1 \<and> io_eof_reached c \<noteq> 0 \<and> io_eof_reached c1 = 0 \<longrightarrow>
      (\<exists>rep. c1 = env_step (Worker rep) c \<and> seek_request c \<noteq> 0
         \<and> async_interrupt_callback c = 0 \<and> \<not> (ucast (ffurl_seek rep) :: c_int) <s 0
         \<and> seek_completed c1 = 1 \<and> 0 \<le>s seek_ret c1)"
    using step_clears_eof by blast
  have p2: "\<forall>c sched sz. io_eof_reached c \<noteq> 0 \<and> queued (fifo c) = [] \<longrightarrow>
        async_read sched c sz =
          Some (if \<not> 0 <s sz then 0
                else if async_interrupt_callback c \<noteq> 0 then AVERROR_EXIT else AVERROR_EOF,
                [], c, sched)"
    unfolding async_read_def by (intro allI impI read_at_eof) simp_all
  have p3: "\<forall>c sched sz d c' s'.
        fifo_bounded c \<and> async_read sched c sz = Some (AVERROR_EOF, d, c', s') \<longrightarrow>
        io_eof_reached c' \<noteq> 0 \<and> queued (fifo c') = [] \<and> d = []
        \<and> logical_pos c' = logical_pos c"
  proof (intro allI impI)
    fix c :: Context and sched :: "wake list" and sz :: c_int
      and d :: "uint8_t list" and c' :: Context and s' :: "wake list"
    assume a: "fifo_bounded c \<and> async_read sched c sz = Some (AVERROR_EOF, d, c', s')"
    then have b: "fifo_bounded c"
      and e: "async_read_internal sched c sz 0 NULL_func = Some (AVERROR_EOF, d, c', s')"
      by (simp_all add: async_read_def)
    have pos: "0 <s sz"
    proof (rule ccontr)
      assume "\<not> 0 <s sz"
      from read_nothing_requested[OF this, of sched c 0 NULL_func] e show False
        by (simp add: AVERROR_EOF_def)
    qed
    from read_outcome_top[OF b pos e]
    show "io_eof_reached c' \<noteq> 0 \<and> queued (fifo c') = [] \<and> d = []
          \<and> logical_pos c' = logical_pos c"
      by (cases rule: read_outcome_cases) (simp_all add: AVERROR_distinct AVERROR_sint)
  qed
  have p4: "\<forall>c sched sz.
        fifo_bounded c \<and> io_eof_reached c \<noteq> 0 \<and> queued (fifo c) \<noteq> [] \<and> 0 <s sz
        \<and> async_interrupt_callback c = 0 \<longrightarrow>
        (\<exists>k. k = min (nat (sint sz)) (length (queued (fifo c))) \<and> 0 < k
           \<and> async_read sched c sz =
               Some (of_nat k, take k (queued (fifo c)),
                     c\<lparr>fifo := (fifo c)\<lparr>queued := drop k (queued (fifo c))\<rparr>,
                       logical_pos := logical_pos c + word_of_int (int k)\<rparr>,
                     sched))"
    using read_buffered by blast
  show ?thesis using p1 p2 p3 p4 by (intro conjI)
qed

theorem eof_persists_until_seek_succeeds_witness:
  "step (example_context\<lparr>io_eof_reached := 1, seek_request := 1\<rparr>)
        (env_step (Worker (Reply 3 (Data [])))
           (example_context\<lparr>io_eof_reached := 1, seek_request := 1\<rparr>))
   \<and> io_eof_reached (example_context\<lparr>io_eof_reached := 1, seek_request := 1\<rparr>) \<noteq> 0
   \<and> io_eof_reached (env_step (Worker (Reply 3 (Data [])))
           (example_context\<lparr>io_eof_reached := 1, seek_request := 1\<rparr>)) = 0
   \<and> (\<exists>rep. \<not> (ucast (ffurl_seek rep) :: c_int) <s 0
         \<and> env_step (Worker (Reply 3 (Data [])))
              (example_context\<lparr>io_eof_reached := 1, seek_request := 1\<rparr>)
            = env_step (Worker rep) (example_context\<lparr>io_eof_reached := 1, seek_request := 1\<rparr>))
   \<and> queued (fifo (example_context\<lparr>io_eof_reached := 1\<rparr>)) = []
   \<and> async_read [] (example_context\<lparr>io_eof_reached := 1\<rparr>) 4
       = Some (AVERROR_EOF, [], example_context\<lparr>io_eof_reached := 1\<rparr>, [])
   \<and> fifo_bounded (example_context\<lparr>io_eof_reached := 1\<rparr>)
   \<and> fifo_bounded (example_context\<lparr>io_eof_reached := 1,
                                      fifo := \<lparr>queued = [5, 6], capacity = 4194304\<rparr>\<rparr>)
   \<and> async_read [] (example_context\<lparr>io_eof_reached := 1,
                                     fifo := \<lparr>queued = [5, 6], capacity = 4194304\<rparr>\<rparr>) 4
       = Some (2, [5, 6], example_context\<lparr>io_eof_reached := 1, logical_pos := 2\<rparr>, [])"
proof -
  let ?c = "example_context\<lparr>io_eof_reached := 1, seek_request := 1\<rparr>"
  let ?e = "example_context\<lparr>io_eof_reached := 1\<rparr>"
  let ?f = "example_context\<lparr>io_eof_reached := 1,
                                      fifo := \<lparr>queued = [5, 6], capacity = 4194304\<rparr>\<rparr>"
  have s: "step ?c (env_step (Worker (Reply 3 (Data []))) ?c)" by (rule step.environment)
  have h1: "io_eof_reached ?c \<noteq> 0"
    and h2: "io_eof_reached (env_step (Worker (Reply 3 (Data []))) ?c) = 0"
    by (simp_all add: model_defs)
  have h3: "io_eof_reached ?e \<noteq> 0 \<and> queued (fifo ?e) = []" by (simp add: model_defs)
  have h4: "fifo_bounded ?e" "fifo_bounded ?f" by (simp_all add: model_defs)
  have h5: "fifo_bounded ?f \<and> io_eof_reached ?f \<noteq> 0 \<and> queued (fifo ?f) \<noteq> [] \<and> 0 <s (4 :: c_int)
        \<and> async_interrupt_callback ?f = 0" by (simp add: model_defs)
  note t = eof_persists_until_seek_succeeds
  from t[THEN conjunct1, rule_format, of ?c "env_step (Worker (Reply 3 (Data []))) ?c"] s h1 h2
  have p1: "\<exists>rep. \<not> (ucast (ffurl_seek rep) :: c_int) <s 0
         \<and> env_step (Worker (Reply 3 (Data []))) ?c = env_step (Worker rep) ?c"
    by blast
  from t[THEN conjunct2, THEN conjunct1, rule_format, of ?e "[]" 4] h3
  have p2: "async_read [] ?e 4 = Some (AVERROR_EOF, [], ?e, [])"
    by (simp add: model_defs)
  from t[THEN conjunct2, THEN conjunct2, THEN conjunct2, rule_format, of ?f 4 "[]"] h5
  obtain k where k: "k = min (nat (sint (4 :: c_int))) (length (queued (fifo ?f)))"
    and r: "async_read [] ?f 4 =
               Some (of_nat k, take k (queued (fifo ?f)),
                     ?f\<lparr>fifo := (fifo ?f)\<lparr>queued := drop k (queued (fifo ?f))\<rparr>,
                       logical_pos := logical_pos ?f + word_of_int (int k)\<rparr>,
                     [])"
    by blast
  have "k = 2" using k by (simp add: example_context_def)
  with r have p4: "async_read [] ?f 4
       = Some (2, [5, 6], example_context\<lparr>io_eof_reached := 1, logical_pos := 2\<rparr>, [])"
    by (simp add: example_context_def)
  show ?thesis using s h1 h2 p1 h3 p2 h4 p4 by blast
qed

subsection \<open>The fast path of a seek\<close>

lemma sint_eq_uint_int64:
  fixes t :: int64_t
  assumes "uint t < 9223372036854775808"
  shows "sint t = uint t"
proof -
  have "sint t = signed_take_bit 63 (uint t)" by (simp add: sint_uint)
  also have "\<dots> = uint t"
  proof (rule signed_take_bit_int_eq_self)
    show "- (2 ^ 63) \<le> uint t" by (rule order_trans[where y = 0]) simp_all
    show "uint t < 2 ^ 63" using assms by simp
  qed
  finally show ?thesis .
qed

lemma nonneg_int64:
  fixes t :: int64_t
  assumes "\<not> t <s 0"
  shows "uint t < 9223372036854775808"
proof -
  have s: "0 \<le> sint t" using assms by (simp add: word_sless_alt)
  have l: "sint t < 2 ^ 63" using sint_lt[of t] by simp
  have "uint t = take_bit 64 (sint t)" using uint_sint[of t] by simp
  also have "\<dots> = sint t"
  proof (rule take_bit_int_eq_self)
    show "0 \<le> sint t" by (rule s)
    have "(2 :: int) ^ 63 \<le> 2 ^ 64" by simp
    then show "sint t < 2 ^ 64" using l by (rule less_le_trans[rotated])
  qed
  finally show ?thesis using l by simp
qed

lemma int64_nonneg: "uint (t :: int64_t) < 9223372036854775808 \<Longrightarrow> 0 \<le>s t"
  by (simp add: word_sle_eq sint_eq_uint_int64)

lemma window_code_test:
  fixes lp t w :: size_t
  assumes a: "uint lp < uint t" and b: "uint t < uint lp + uint w"
    and c: "uint t < 9223372036854775808" and d: "uint w \<le> 4456448"
  shows "lp < t" and "t < lp + w" and "uint (t - lp) = uint t - uint lp"
proof -
  show "lp < t" using a by (simp add: word_less_alt)
  have "uint lp + uint w < 2 ^ LENGTH(64)" using a c d by simp
  then have s: "uint (lp + w) = uint lp + uint w" by (simp only: uint_add_lem)
  show "t < lp + w" using b by (simp add: word_less_alt s)
  have "uint lp \<le> uint t" using a by simp
  then show "uint (t - lp) = uint t - uint lp" by (simp only: uint_sub_lem)
qed

lemma scast_av_fifo_size:
  assumes "fifo_bounded c"
  shows "(scast (av_fifo_size (fifo c)) :: size_t) = of_nat (length (queued (fifo c)))"
  by (simp add: scast_c_int_eq sint_av_fifo_size[OF assms])

lemma scast_SHORT_SEEK_THRESHOLD: "(scast SHORT_SEEK_THRESHOLD :: size_t) = 262144"
  by (simp add: SHORT_SEEK_THRESHOLD_def)

lemma uint_window_width:
  assumes "fifo_bounded c"
  shows "uint (scast (av_fifo_size (fifo c)) + scast SHORT_SEEK_THRESHOLD :: size_t)
           = int (length (queued (fifo c))) + 262144"
proof -
  have l: "length (queued (fifo c)) \<le> 4194304" using fifo_boundedD(2)[OF assms] .
  have "uint (of_nat (length (queued (fifo c))) + 262144 :: size_t)
          = int (length (queued (fifo c)) + 262144)"
    using l by (simp add: uint_word_ariths take_bit_int_eq_self unsigned_of_nat take_bit_nat_eq_self)
  then show ?thesis
    by (simp add: scast_av_fifo_size[OF assms] scast_SHORT_SEEK_THRESHOLD)
qed

lemma async_seek_fast:
  fixes c :: Context and pos :: int64_t and whence :: c_int
  assumes b: "fifo_bounded c"
    and w: "whence = SEEK_SET \<or> whence = SEEK_CUR"
    and nn: "\<not> seek_target c pos whence <s 0"
    and lo: "uint (logical_pos c) < uint (seek_target c pos whence)"
    and hi: "uint (seek_target c pos whence)
               < uint (logical_pos c) + int (length (queued (fifo c))) + 262144"
  defines "sz \<equiv> (ucast (seek_target c pos whence - logical_pos c) :: c_int)"
  shows "async_seek sched c pos whence =
           (case async_read_internal sched c sz 1 fifo_do_not_copy_func of
              None \<Rightarrow> None
            | Some (ret, d, c', s') \<Rightarrow> Some (logical_pos c', c', s'))"
    and "sint sz = uint (seek_target c pos whence) - uint (logical_pos c)"
    and "0 <s sz"
proof -
  let ?t = "seek_target c pos whence"
  let ?w = "scast (av_fifo_size (fifo c)) + scast SHORT_SEEK_THRESHOLD :: size_t"
  have uw: "uint ?w = int (length (queued (fifo c))) + 262144" by (rule uint_window_width[OF b])
  have l: "length (queued (fifo c)) \<le> 4194304" using fifo_boundedD(2)[OF b] .
  have t63: "uint ?t < 9223372036854775808" by (rule nonneg_int64[OF nn])
  have hi': "uint ?t < uint (logical_pos c) + uint ?w" using hi by (simp only: uw)
  have wle: "uint ?w \<le> 4456448" using l by (simp only: uw)
  note wc = window_code_test[OF lo hi' t63 wle]
  have test: "logical_pos c < ?t \<and>
              ?t < logical_pos c + scast (av_fifo_size (fifo c)) + scast SHORT_SEEK_THRESHOLD"
    using wc(1,2) by (simp add: add.assoc)
  have ne: "?t \<noteq> logical_pos c" using lo by auto
  have diff: "uint (?t - logical_pos c) < 4456448" using wc(3) hi l by simp
  then have small: "?t - logical_pos c < 2147483648" by (simp add: word_less_alt)
  show s: "sint sz = uint ?t - uint (logical_pos c)"
    unfolding sz_def by (simp only: sint_ucast_small[OF small] wc(3))
  show "0 <s sz" using s lo by (simp add: word_sless_alt)
  have wh: "whence \<noteq> AVSEEK_SIZE" using w by (auto simp: SEEK_SET_def SEEK_CUR_def AVSEEK_SIZE_def)
  have tgt: "(if whence = SEEK_CUR then pos + logical_pos c else pos) = ?t"
    by (simp add: seek_target_def)
  show "async_seek sched c pos whence =
           (case async_read_internal sched c sz 1 fifo_do_not_copy_func of
              None \<Rightarrow> None
            | Some (ret, d, c', s') \<Rightarrow> Some (logical_pos c', c', s'))"
    unfolding async_seek_def Let_def tgt sz_def
    using wh w nn ne test by auto
qed

lemma uint_add_word_of_int:
  fixes lp :: size_t
  assumes "0 \<le> n" and "uint lp + n < 18446744073709551616"
  shows "uint (lp + word_of_int n) = uint lp + n"
proof -
  have "0 \<le> uint lp" by simp
  then have "n < 18446744073709551616" using assms(2) by linarith
  then have n64: "n < 2 ^ 64" by simp
  have "uint (word_of_int n :: size_t) = take_bit 64 n" by (simp add: uint_word_of_int_eq)
  also have "\<dots> = n" by (rule take_bit_int_eq_self[OF assms(1) n64])
  finally have u: "uint (word_of_int n :: size_t) = n" .
  have "uint lp + uint (word_of_int n :: size_t) < 2 ^ LENGTH(64)" using assms(2) by (simp add: u)
  then have "uint (lp + word_of_int n) = uint lp + uint (word_of_int n :: size_t)"
    by (simp only: uint_add_lem)
  then show ?thesis by (simp only: u)
qed

lemma c_int_eq_iff_sint: "(a :: c_int) = b \<longleftrightarrow> sint a = sint b"
  by (rule word_eq_iff_signed)

lemma fast_seek_position:
  fixes c :: Context and pos :: int64_t and whence :: c_int
  assumes b: "fifo_bounded c"
    and w: "whence = SEEK_SET \<or> whence = SEEK_CUR"
    and nn: "\<not> seek_target c pos whence <s 0"
    and lo: "uint (logical_pos c) < uint (seek_target c pos whence)"
    and hi: "uint (seek_target c pos whence)
               < uint (logical_pos c) + int (length (queued (fifo c))) + 262144"
    and r: "async_read_internal sched c (ucast (seek_target c pos whence - logical_pos c))
              1 fifo_do_not_copy_func = Some (ret, d, c', s')"
  shows "uint (logical_pos c) \<le> uint (logical_pos c')"
    and "uint (logical_pos c') \<le> uint (seek_target c pos whence)"
    and "ret = ucast (seek_target c pos whence - logical_pos c)
           \<longleftrightarrow> logical_pos c' = seek_target c pos whence"
    and "ret = AVERROR_EOF \<or> ret = AVERROR_EXIT \<or> 0 <s ret"
    and "logical_pos c' \<noteq> seek_target c pos whence \<Longrightarrow>
           async_interrupt_callback c' \<noteq> 0 \<or> (io_eof_reached c' \<noteq> 0 \<and> queued (fifo c') = [])"
proof -
  let ?t = "seek_target c pos whence"
  let ?sz = "ucast (?t - logical_pos c) :: c_int"
  note f = async_seek_fast[OF b w nn lo hi]
  have sz: "sint ?sz = uint ?t - uint (logical_pos c)" by (rule f(2))
  have t63: "uint ?t < 9223372036854775808" by (rule nonneg_int64[OF nn])
  have pos_of: "\<And>n. 0 \<le> n \<Longrightarrow> n \<le> sint ?sz \<Longrightarrow>
             uint (logical_pos c + word_of_int n) = uint (logical_pos c) + n"
    using t63 by (intro uint_add_word_of_int) (simp_all add: sz)
  have eq_iff: "\<And>n. 0 \<le> n \<Longrightarrow> n \<le> sint ?sz \<Longrightarrow>
             (logical_pos c + word_of_int n = ?t) = (n = sint ?sz)"
  proof -
    fix n :: int assume n: "0 \<le> n" "n \<le> sint ?sz"
    have "(logical_pos c + word_of_int n = ?t) = (uint (logical_pos c + word_of_int n) = uint ?t)"
      by (simp add: word_uint_eq_iff)
    also have "\<dots> = (n = sint ?sz)" using pos_of[OF n] by (simp add: sz) linarith
    finally show "(logical_pos c + word_of_int n = ?t) = (n = sint ?sz)" .
  qed
  have szpos: "0 < sint ?sz" using lo by (simp add: sz)
  from read_outcome_top[OF b f(3) r]
  have "uint (logical_pos c) \<le> uint (logical_pos c')
      \<and> uint (logical_pos c') \<le> uint ?t
      \<and> (ret = ?sz \<longleftrightarrow> logical_pos c' = ?t)
      \<and> (ret = AVERROR_EOF \<or> ret = AVERROR_EXIT \<or> 0 <s ret)
      \<and> (logical_pos c' \<noteq> ?t \<longrightarrow>
           async_interrupt_callback c' \<noteq> 0 \<or> (io_eof_reached c' \<noteq> 0 \<and> queued (fifo c') = []))"
  proof (cases rule: read_outcome_cases)
    case (aborted n)
    have n: "0 \<le> n" "n \<le> sint ?sz" using aborted(3,4) by simp_all
    have ne: "ret \<noteq> ?sz" using aborted(1) szpos AVERROR_sint(2) by auto
    show ?thesis
      using pos_of[OF n] eq_iff[OF n] aborted(1,2,4,6) ne n by (simp add: sz)
  next
    case eof
    have n: "(0::int) \<le> 0" "0 \<le> sint ?sz" using szpos by simp_all
    have ne: "ret \<noteq> ?sz" using eof(1) szpos AVERROR_sint(1) by auto
    show ?thesis
      using pos_of[OF n] eq_iff[OF n] eof(1,2,3,5) ne szpos n by (simp add: sz)
  next
    case (moved n)
    have n: "0 \<le> n" "n \<le> sint ?sz" using moved(1,2) by simp_all
    have r_iff: "(ret = ?sz) = (n = sint ?sz)"
      using moved(3) c_int_eq_iff_sint[of ret ?sz] by simp
    have "0 <s ret" using moved(1,3) by (simp add: word_sless_alt)
    moreover have "n = sint ?sz \<or> (io_eof_reached c' \<noteq> 0 \<and> queued (fifo c') = [])"
      using moved(7) by simp
    ultimately show ?thesis
      using pos_of[OF n] eq_iff[OF n] moved(1,4) r_iff n by (auto simp: sz)
  qed
  then show "uint (logical_pos c) \<le> uint (logical_pos c')"
    and "uint (logical_pos c') \<le> uint (seek_target c pos whence)"
    and "ret = ucast (seek_target c pos whence - logical_pos c)
           \<longleftrightarrow> logical_pos c' = seek_target c pos whence"
    and "ret = AVERROR_EOF \<or> ret = AVERROR_EXIT \<or> 0 <s ret"
    and "logical_pos c' \<noteq> seek_target c pos whence \<Longrightarrow>
           async_interrupt_callback c' \<noteq> 0 \<or> (io_eof_reached c' \<noteq> 0 \<and> queued (fifo c') = [])"
    by blast+
qed

lemma fast_seek_buffered:
  fixes c :: Context and pos :: int64_t and whence :: c_int
  assumes b: "fifo_bounded c"
    and w: "whence = SEEK_SET \<or> whence = SEEK_CUR"
    and nn: "\<not> seek_target c pos whence <s 0"
    and lo: "uint (logical_pos c) < uint (seek_target c pos whence)"
    and enough: "uint (seek_target c pos whence)
                   \<le> uint (logical_pos c) + int (length (queued (fifo c)))"
    and i: "async_interrupt_callback c = 0"
  shows "\<exists>d c'. async_read_internal sched c (ucast (seek_target c pos whence - logical_pos c))
                  1 fifo_do_not_copy_func
                = Some (ucast (seek_target c pos whence - logical_pos c), d, c', sched)"
proof -
  let ?t = "seek_target c pos whence"
  let ?sz = "ucast (?t - logical_pos c) :: c_int"
  have hi: "uint ?t < uint (logical_pos c) + int (length (queued (fifo c))) + 262144"
    using enough by simp
  note f = async_seek_fast[OF b w nn lo hi]
  have t: "0 < sint ?sz" using f(3) by (simp add: word_sless_alt)
  have q: "queued (fifo c) \<noteq> []" using lo enough by auto
  define k where "k = min (nat (sint ?sz)) (length (queued (fifo c)))"
  have k: "int k = sint ?sz" using enough t by (simp add: k_def f(2))
  note d = pass_drain(1)[OF b t i q, where sz = ?sz and rc = 1 and func = fifo_do_not_copy_func
      and dest = "[]" and ret = 0, folded k_def]
  have "sint (?sz - of_nat k) = 0"
    using pass_drain(4)[OF b t i q, folded k_def] k by simp
  then have z: "?sz - of_nat k = 0" using c_int_eq_iff_sint[of "?sz - of_nat k" 0] by simp
  show ?thesis
    using d unfolding z
    by (cases sched) (simp_all add: async_read_internal_def word_sle_eq)
qed

text \<open>
  C4. The claim: every seek to a target inside the fast-seek window discards
  \<open>target - logical_pos\<close> bytes by an internal complete read, posts no seek request,
  advances \<^verbatim>\<open>logical_pos\<close> to the target and returns it. The read can end early. Below,
  the end of the stream is recorded and the buffer is empty: a seek from 0 to 5 takes the
  fast path and returns 0, with \<^verbatim>\<open>logical_pos\<close> still 0.
\<close>

theorem async_seek_fast_path_stops_at_eof:
  "async_seek [] (example_context\<lparr>io_eof_reached := 1\<rparr>) 5 SEEK_SET
     = Some (0, example_context\<lparr>io_eof_reached := 1\<rparr>, [])
   \<and> logical_pos (example_context\<lparr>io_eof_reached := 1\<rparr>) = 0"
  by (simp add: model_defs)

text \<open>
  C4, as the code has it. For a non-negative target with
  \<open>logical_pos < target < logical_pos + buffered + 262144\<close>, \<^verbatim>\<open>async_seek\<close> is the
  internal complete, discarding read of \<open>target - logical_pos\<close> bytes followed by the
  return of \<^verbatim>\<open>logical_pos\<close>. When it returns, the result is the new \<^verbatim>\<open>logical_pos\<close>,
  between the old one and the target; a clear seek mailbox is still clear; and the
  result is the target unless the read was cut short by cancellation or by the end of
  the stream with the buffer drained. When the target lies within the buffered bytes
  and no cancellation is signalled, the seek returns the target at once.
\<close>

theorem async_seek_fast_path:
  assumes b: "fifo_bounded c"
    and w: "whence = SEEK_SET \<or> whence = SEEK_CUR"
    and nn: "\<not> seek_target c pos whence <s 0"
    and lo: "uint (logical_pos c) < uint (seek_target c pos whence)"
    and hi: "uint (seek_target c pos whence)
               < uint (logical_pos c) + int (length (queued (fifo c))) + 262144"
  shows "async_seek sched c pos whence =
           (case async_read_internal sched c (ucast (seek_target c pos whence - logical_pos c))
                   1 fifo_do_not_copy_func of
              None \<Rightarrow> None
            | Some (ret, d, c', s') \<Rightarrow> Some (logical_pos c', c', s'))
       \<and> (\<forall>r c' s'. async_seek sched c pos whence = Some (r, c', s') \<longrightarrow>
            r = logical_pos c'
            \<and> uint (logical_pos c) \<le> uint r \<and> uint r \<le> uint (seek_target c pos whence)
            \<and> (seek_request c = 0 \<longrightarrow> seek_request c' = 0)
            \<and> (r \<noteq> seek_target c pos whence \<longrightarrow>
                 async_interrupt_callback c' \<noteq> 0
                 \<or> (io_eof_reached c' \<noteq> 0 \<and> queued (fifo c') = [])))
       \<and> (async_interrupt_callback c = 0
            \<and> uint (seek_target c pos whence)
                 \<le> uint (logical_pos c) + int (length (queued (fifo c))) \<longrightarrow>
            (\<exists>c'. async_seek sched c pos whence = Some (seek_target c pos whence, c', sched)
                   \<and> logical_pos c' = seek_target c pos whence))"
proof -
  let ?t = "seek_target c pos whence"
  let ?sz = "ucast (?t - logical_pos c) :: c_int"
  note f = async_seek_fast(1)[OF b w nn lo hi, of sched]
  have p2: "\<forall>r c' s'. async_seek sched c pos whence = Some (r, c', s') \<longrightarrow>
            r = logical_pos c'
            \<and> uint (logical_pos c) \<le> uint r \<and> uint r \<le> uint ?t
            \<and> (seek_request c = 0 \<longrightarrow> seek_request c' = 0)
            \<and> (r \<noteq> ?t \<longrightarrow>
                 async_interrupt_callback c' \<noteq> 0
                 \<or> (io_eof_reached c' \<noteq> 0 \<and> queued (fifo c') = []))"
  proof (intro allI impI)
    fix r c' s'
    assume a: "async_seek sched c pos whence = Some (r, c', s')"
    then obtain ret d where rd: "async_read_internal sched c ?sz 1 fifo_do_not_copy_func
                                   = Some (ret, d, c', s')" and r: "r = logical_pos c'"
      unfolding f by (auto split: option.splits)
    note p = fast_seek_position[OF b w nn lo hi rd]
    have sr: "seek_request c = 0 \<longrightarrow> seek_request c' = 0"
      using loop_seek_request[OF _ rd[unfolded async_read_internal_def]] by simp
    show "r = logical_pos c'
            \<and> uint (logical_pos c) \<le> uint r \<and> uint r \<le> uint ?t
            \<and> (seek_request c = 0 \<longrightarrow> seek_request c' = 0)
            \<and> (r \<noteq> ?t \<longrightarrow>
                 async_interrupt_callback c' \<noteq> 0
                 \<or> (io_eof_reached c' \<noteq> 0 \<and> queued (fifo c') = []))"
      using r p(1,2,5) sr by simp
  qed
  have p3: "async_interrupt_callback c = 0
            \<and> uint ?t \<le> uint (logical_pos c) + int (length (queued (fifo c))) \<longrightarrow>
            (\<exists>c'. async_seek sched c pos whence = Some (?t, c', sched) \<and> logical_pos c' = ?t)"
  proof
    assume a: "async_interrupt_callback c = 0
            \<and> uint ?t \<le> uint (logical_pos c) + int (length (queued (fifo c)))"
    from fast_seek_buffered[OF b w nn lo _ _, of sched] a
    obtain d c' where rd: "async_read_internal sched c ?sz 1 fifo_do_not_copy_func
                             = Some (?sz, d, c', sched)"
      by blast
    have "logical_pos c' = ?t" using fast_seek_position(3)[OF b w nn lo hi rd] by simp
    then show "\<exists>c'. async_seek sched c pos whence = Some (?t, c', sched) \<and> logical_pos c' = ?t"
      unfolding f rd by simp
  qed
  show ?thesis using f p2 p3 by (intro conjI)
qed

theorem async_seek_fast_path_witness:
  "fifo_bounded (example_context\<lparr>fifo := \<lparr>queued = [1, 2, 3], capacity = 4194304\<rparr>\<rparr>)
   \<and> \<not> seek_target (example_context\<lparr>fifo := \<lparr>queued = [1, 2, 3], capacity = 4194304\<rparr>\<rparr>)
         2 SEEK_SET <s 0
   \<and> uint (logical_pos (example_context\<lparr>fifo := \<lparr>queued = [1, 2, 3], capacity = 4194304\<rparr>\<rparr>))
       < uint (seek_target
                (example_context\<lparr>fifo := \<lparr>queued = [1, 2, 3], capacity = 4194304\<rparr>\<rparr>)
                2 SEEK_SET)
   \<and> uint (seek_target (example_context\<lparr>fifo := \<lparr>queued = [1, 2, 3], capacity = 4194304\<rparr>\<rparr>)
              2 SEEK_SET)
       \<le> uint (logical_pos
                (example_context\<lparr>fifo := \<lparr>queued = [1, 2, 3], capacity = 4194304\<rparr>\<rparr>)) + 3
   \<and> async_interrupt_callback
        (example_context\<lparr>fifo := \<lparr>queued = [1, 2, 3], capacity = 4194304\<rparr>\<rparr>) = 0
   \<and> async_seek [] (example_context\<lparr>fifo := \<lparr>queued = [1, 2, 3], capacity = 4194304\<rparr>\<rparr>)
         2 SEEK_SET
       = Some (2, example_context\<lparr>fifo := \<lparr>queued = [3], capacity = 4194304\<rparr>,
                                   logical_pos := 2\<rparr>, [])"
  using async_seek_fast_path[where
      c = "example_context\<lparr>fifo := \<lparr>queued = [1, 2, 3], capacity = 4194304\<rparr>\<rparr>"
      and pos = 2 and whence = SEEK_SET and sched = "[]"]
  by (simp add: model_defs)

lemma scast_AVERROR_negative:
  "(scast AVERROR_EOF :: int64_t) <s 0" "(scast AVERROR_EXIT :: int64_t) <s 0"
  by (simp_all only: scast_sless_0) (simp_all add: word_sless_alt AVERROR_sint)

text \<open>
  C10. When the discarding read of the fast path ends early (its result is not the
  requested count: it is the EOF sentinel, the aborted sentinel, or a short count at the
  end of the stream), \<^verbatim>\<open>async_seek\<close> ignores that result and returns the
  \<^verbatim>\<open>logical_pos\<close> reached: a non-negative position, not below the old one and strictly
  below the target, and none of the two sentinels.
\<close>

theorem async_seek_fast_path_cut_short:
  assumes b: "fifo_bounded c"
    and w: "whence = SEEK_SET \<or> whence = SEEK_CUR"
    and nn: "\<not> seek_target c pos whence <s 0"
    and lo: "uint (logical_pos c) < uint (seek_target c pos whence)"
    and hi: "uint (seek_target c pos whence)
               < uint (logical_pos c) + int (length (queued (fifo c))) + 262144"
    and rd: "async_read_internal sched c (ucast (seek_target c pos whence - logical_pos c))
               1 fifo_do_not_copy_func = Some (ret, d, c', s')"
    and early: "ret \<noteq> ucast (seek_target c pos whence - logical_pos c)"
  shows "async_seek sched c pos whence = Some (logical_pos c', c', s')
       \<and> 0 \<le>s logical_pos c'
       \<and> logical_pos c' < seek_target c pos whence
       \<and> logical_pos c \<le> logical_pos c'
       \<and> logical_pos c' \<noteq> scast AVERROR_EOF \<and> logical_pos c' \<noteq> scast AVERROR_EXIT
       \<and> (ret = AVERROR_EOF \<or> ret = AVERROR_EXIT \<or> 0 <s ret)
       \<and> (async_interrupt_callback c' \<noteq> 0
            \<or> (io_eof_reached c' \<noteq> 0 \<and> queued (fifo c') = []))"
proof -
  let ?t = "seek_target c pos whence"
  note p = fast_seek_position[OF b w nn lo hi rd]
  have res: "async_seek sched c pos whence = Some (logical_pos c', c', s')"
    unfolding async_seek_fast(1)[OF b w nn lo hi, of sched] rd by simp
  have ne: "logical_pos c' \<noteq> ?t" using p(3) early by simp
  then have "uint (logical_pos c') \<noteq> uint ?t" by (simp add: word_uint_eq_iff)
  then have lt: "uint (logical_pos c') < uint ?t" using p(2) by simp
  then have less: "logical_pos c' < ?t" by (simp add: word_less_alt)
  have le: "logical_pos c \<le> logical_pos c'" using p(1) by (simp add: word_le_def)
  have "uint (logical_pos c') < 9223372036854775808"
    using lt nonneg_int64[OF nn] by simp
  then have nonneg: "0 \<le>s logical_pos c'" by (rule int64_nonneg)
  have s1: "logical_pos c' \<noteq> scast AVERROR_EOF"
    using nonneg scast_AVERROR_negative(1) by (auto simp: word_sle_eq word_sless_alt)
  have s2: "logical_pos c' \<noteq> scast AVERROR_EXIT"
    using nonneg scast_AVERROR_negative(2) by (auto simp: word_sle_eq word_sless_alt)
  show ?thesis using res nonneg less le s1 s2 p(4) p(5)[OF ne] by (intro conjI)
qed

theorem async_seek_fast_path_cut_short_witness:
  "fifo_bounded (example_context\<lparr>io_eof_reached := 1,
                                  fifo := \<lparr>queued = [1, 2], capacity = 4194304\<rparr>\<rparr>)
   \<and> async_read_internal [[]]
        (example_context\<lparr>io_eof_reached := 1,
                         fifo := \<lparr>queued = [1, 2], capacity = 4194304\<rparr>\<rparr>)
        5 1 fifo_do_not_copy_func
      = Some (2, [], example_context\<lparr>io_eof_reached := 1, logical_pos := 2\<rparr>, [])
   \<and> (2 :: c_int) \<noteq> 5
   \<and> async_seek [[]]
        (example_context\<lparr>io_eof_reached := 1,
                         fifo := \<lparr>queued = [1, 2], capacity = 4194304\<rparr>\<rparr>)
        5 SEEK_SET
      = Some (2, example_context\<lparr>io_eof_reached := 1, logical_pos := 2\<rparr>, [])
   \<and> (2 :: int64_t) < 5"
  using async_seek_fast_path_cut_short[where
      c = "example_context\<lparr>io_eof_reached := 1,
                            fifo := \<lparr>queued = [1, 2], capacity = 4194304\<rparr>\<rparr>"
      and pos = 5 and whence = SEEK_SET and sched = "[[]]" and ret = 2 and d = "[]"
      and c' = "example_context\<lparr>io_eof_reached := 1, logical_pos := 2\<rparr>" and s' = "[]"]
  by (simp add: model_defs)

subsection \<open>The slow path\<close>

lemma async_interrupt_callback_logical_pos:
  "async_interrupt_callback (c\<lparr>logical_pos := p\<rparr>) = async_interrupt_callback c"
  by (simp add: async_interrupt_callback_def split: option.splits)

lemma seek_loop_result:
  assumes "async_seek_loop sched c = Some (r, c', s')"
  shows "(async_interrupt_callback c' \<noteq> 0 \<and> r = scast AVERROR_EXIT
            \<and> logical_pos c' = logical_pos c)
       \<or> (async_interrupt_callback c' = 0 \<and> seek_completed c' \<noteq> 0 \<and> r = seek_ret c'
            \<and> (if 0 \<le>s r then logical_pos c' = r else logical_pos c' = logical_pos c))"
  using assms
proof (induction sched arbitrary: c)
  case Nil
  then show ?case
    by (auto simp: async_seek_pass_def async_interrupt_callback_logical_pos split: if_splits)
next
  case (Cons w ws)
  show ?case
  proof (cases "async_seek_pass c")
    case (Leave x)
    then show ?thesis using Cons.prems
      by (auto simp: async_seek_pass_def async_interrupt_callback_logical_pos split: if_splits)
  next
    case (Wait c1)
    then have "c1 = c" by (auto simp: async_seek_pass_def split: if_splits)
    then have "async_seek_loop ws (pthread_cond_wait w c) = Some (r, c', s')"
      using Cons.prems Wait by simp
    from Cons.IH[OF this] show ?thesis
      by (auto simp: pthread_cond_wait_logical_pos split: if_splits)
  qed
qed

text \<open>The seek waits only while the request is neither completed nor cancelled.\<close>

lemma seek_loop_blocks_only_when_pending:
  assumes "async_seek_loop sched c = None"
  shows "async_interrupt_callback (pthread_cond_wait (concat sched) c) = 0
       \<and> seek_completed (pthread_cond_wait (concat sched) c) = 0"
  using assms
proof (induction sched arbitrary: c)
  case Nil
  then show ?case
    by (auto simp: async_seek_pass_def pthread_cond_wait_Nil split: if_splits)
next
  case (Cons w ws)
  from Cons.prems have "async_seek_pass c = Wait c"
    by (auto simp: async_seek_pass_def split: if_splits)
  then have "async_seek_loop ws (pthread_cond_wait w c) = None"
    using Cons.prems by simp
  from Cons.IH[OF this] show ?case by (simp add: pthread_cond_wait_append)
qed

text \<open>
  C9. A seek that takes the slow path (the target is not the current position, not in
  the fast-seek window, and within a known size) returns in one of two ways. Either it
  has observed cancellation: it returns the aborted sentinel and \<^verbatim>\<open>logical_pos\<close> is as
  it was. Or it has seen the request completed: it returns the worker's result
  \<^verbatim>\<open>seek_ret\<close>, with \<^verbatim>\<open>logical_pos\<close> set to that result when it is non-negative and
  left as it was when it is negative.
\<close>

theorem async_seek_adopts_worker_result:
  assumes w: "whence = SEEK_SET \<or> whence = SEEK_CUR"
    and nn: "\<not> seek_target c pos whence <s 0"
    and ne: "seek_target c pos whence \<noteq> logical_pos c"
    and nf: "\<not> (logical_pos c < seek_target c pos whence \<and>
                seek_target c pos whence
                  < logical_pos c + scast (av_fifo_size (fifo c)) + scast SHORT_SEEK_THRESHOLD)"
    and sz: "\<not> logical_size c \<le> 0" and inside: "\<not> logical_size c < seek_target c pos whence"
    and res: "async_seek sched c pos whence = Some (r, c', s')"
  shows "(async_interrupt_callback c' \<noteq> 0 \<and> r = scast AVERROR_EXIT
            \<and> logical_pos c' = logical_pos c)
       \<or> (async_interrupt_callback c' = 0 \<and> seek_completed c' \<noteq> 0 \<and> r = seek_ret c'
            \<and> (0 \<le>s r \<longrightarrow> logical_pos c' = r)
            \<and> (r <s 0 \<longrightarrow> logical_pos c' = logical_pos c))"
proof -
  let ?t = "seek_target c pos whence"
  let ?posted = "c\<lparr>seek_request := 1, seek_pos := ?t, seek_whence := SEEK_SET,
                    seek_completed := 0, seek_ret := 0\<rparr>"
  have wh: "whence \<noteq> AVSEEK_SIZE" using w by (auto simp: SEEK_SET_def SEEK_CUR_def AVSEEK_SIZE_def)
  have tgt: "(if whence = SEEK_CUR then pos + logical_pos c else pos) = ?t"
    by (simp add: seek_target_def)
  have "async_seek sched c pos whence = async_seek_loop sched ?posted"
    unfolding async_seek_def Let_def tgt using wh w nn ne nf sz inside by auto
  then have "async_seek_loop sched ?posted = Some (r, c', s')" using res by simp
  from seek_loop_result[OF this] show ?thesis
    by (auto simp: word_sle_eq word_sless_alt split: if_splits)
qed

theorem async_seek_adopts_worker_result_witness:
  "\<not> seek_target (example_context\<lparr>logical_pos := 6\<rparr>) 2 SEEK_SET <s 0
   \<and> seek_target (example_context\<lparr>logical_pos := 6\<rparr>) 2 SEEK_SET
       \<noteq> logical_pos (example_context\<lparr>logical_pos := 6\<rparr>)
   \<and> \<not> logical_pos (example_context\<lparr>logical_pos := 6\<rparr>)
         < seek_target (example_context\<lparr>logical_pos := 6\<rparr>) 2 SEEK_SET
   \<and> \<not> logical_size (example_context\<lparr>logical_pos := 6\<rparr>) \<le> 0
   \<and> \<not> logical_size (example_context\<lparr>logical_pos := 6\<rparr>)
         < seek_target (example_context\<lparr>logical_pos := 6\<rparr>) 2 SEEK_SET
   \<and> async_seek [[Worker (Reply 2 (Data []))]] (example_context\<lparr>logical_pos := 6\<rparr>) 2 SEEK_SET
       = Some (2, example_context\<lparr>logical_pos := 2, seek_pos := 2, seek_completed := 1,
                                   seek_ret := 2\<rparr>, [])
   \<and> async_interrupt_callback
        (example_context\<lparr>logical_pos := 2, seek_pos := 2, seek_completed := 1, seek_ret := 2\<rparr>)
       = 0
   \<and> (0 :: int64_t) \<le>s 2
   \<and> async_seek [[Worker (Reply (- 5) (Data []))]] (example_context\<lparr>logical_pos := 6\<rparr>)
         2 SEEK_SET
       = Some (- 5, example_context\<lparr>logical_pos := 6, seek_pos := 2, seek_completed := 1,
                                     seek_ret := - 5, io_eof_reached := 1, io_error := - 5\<rparr>, [])
   \<and> (- 5 :: int64_t) <s 0"
  using async_seek_adopts_worker_result[where c = "example_context\<lparr>logical_pos := 6\<rparr>"
      and pos = 2 and whence = SEEK_SET and sched = "[[Worker (Reply 2 (Data []))]]" and r = 2
      and c' = "example_context\<lparr>logical_pos := 2, seek_pos := 2, seek_completed := 1,
                               seek_ret := 2\<rparr>"
      and s' = "[]"]
    async_seek_adopts_worker_result[where c = "example_context\<lparr>logical_pos := 6\<rparr>"
      and pos = 2 and whence = SEEK_SET and sched = "[[Worker (Reply (- 5) (Data []))]]"
      and r = "- 5"
      and c' = "example_context\<lparr>logical_pos := 6, seek_pos := 2, seek_completed := 1,
                               seek_ret := - 5, io_eof_reached := 1, io_error := - 5\<rparr>"
      and s' = "[]"]
  by (simp add: model_defs)

subsection \<open>Backpressure\<close>

lemma async_open_fifo_bounded: "async_open cb ext = Inr c \<Longrightarrow> fifo_bounded c"
  by (auto simp: async_open_def fifo_bounded_def av_fifo_alloc_def split: if_splits)

lemma pass_fifo_bounded:
  "fifo_bounded c \<Longrightarrow>
   async_read_internal_pass sz rc func (c, dest, to_read, ret) = Leave (r, d, c') \<Longrightarrow>
   fifo_bounded c'"
  "fifo_bounded c \<Longrightarrow>
   async_read_internal_pass sz rc func (c, dest, to_read, ret) = Wait (c1, d1, t1, r1) \<Longrightarrow>
   fifo_bounded c1"
  by (auto simp: async_read_internal_pass_def Let_def av_fifo_generic_read_def fifo_bounded_def
      split: if_splits)

lemma seek_pass_fifo_bounded:
  "fifo_bounded c \<Longrightarrow> async_seek_pass c = Leave (r, c') \<Longrightarrow> fifo_bounded c'"
  by (auto simp: async_seek_pass_def fifo_bounded_def split: if_splits)

lemma step_fifo_bounded: "step c c' \<Longrightarrow> fifo_bounded c \<Longrightarrow> fifo_bounded c'"
proof (induction rule: step.induct)
  case (environment c e)
  then show ?case by (rule env_step_fifo_bounded)
next
  case (read_leaves sz rc func c dest to_read ret r d c')
  then show ?case using pass_fifo_bounded(1) by blast
next
  case (read_waits sz rc func c dest to_read ret c' d t r)
  then show ?case using pass_fifo_bounded(2) by blast
next
  case (seek_posts c p)
  then show ?case by (simp add: fifo_bounded_def)
next
  case (seek_leaves c r c')
  then show ?case using seek_pass_fifo_bounded by blast
qed

lemma reachable_fifo_bounded: "reachable c \<Longrightarrow> fifo_bounded c"
  by (induction rule: reachable.induct) (auto intro: async_open_fifo_bounded step_fifo_bounded)

text \<open>The states reachable by atomic steps include those the calls return.\<close>

lemma reachable_wait: "reachable c \<Longrightarrow> reachable (pthread_cond_wait w c)"
proof (induction w arbitrary: c)
  case Nil
  then show ?case by (simp add: pthread_cond_wait_Nil)
next
  case (Cons e w)
  have "reachable (env_step e c)"
    by (rule reachable.stepped[OF Cons.prems step.environment])
  then show ?case by (simp add: pthread_cond_wait_Cons Cons.IH)
qed

lemma reachable_read_loop:
  assumes "reachable (fst st)"
    and "async_read_internal_loop sz rc func sched st = Some (r, d, c', s')"
  shows "reachable c'"
  using assms
proof (induction sched arbitrary: st)
  case Nil
  obtain c dest to_read ret where st: "st = (c, dest, to_read, ret)" by (cases st)
  show ?case
  proof (cases "async_read_internal_pass sz rc func (c, dest, to_read, ret)")
    case (Leave x)
    obtain r1 d1 c1 where x: "x = (r1, d1, c1)" by (cases x)
    have "step c c1" using Leave unfolding x by (rule step.read_leaves)
    then have "reachable c1" using Nil(1) by (simp add: st reachable.stepped)
    then show ?thesis using Nil(2) Leave by (simp add: st x)
  next
    case (Wait st')
    then show ?thesis using Nil(2) by (simp add: st)
  qed
next
  case (Cons w ws)
  obtain c dest to_read ret where st: "st = (c, dest, to_read, ret)" by (cases st)
  show ?case
  proof (cases "async_read_internal_pass sz rc func (c, dest, to_read, ret)")
    case (Leave x)
    obtain r1 d1 c1 where x: "x = (r1, d1, c1)" by (cases x)
    have "step c c1" using Leave unfolding x by (rule step.read_leaves)
    then have "reachable c1" using Cons(2) by (simp add: st reachable.stepped)
    then show ?thesis using Cons(3) Leave by (simp add: st x)
  next
    case (Wait st')
    obtain c1 dest1 to_read1 ret1 where st': "st' = (c1, dest1, to_read1, ret1)" by (cases st')
    have "step c c1" using Wait unfolding st' by (rule step.read_waits)
    then have "reachable c1" using Cons(2) by (simp add: st reachable.stepped)
    then have "reachable (fst (pthread_cond_wait w c1, dest1, to_read1, ret1))"
      by (simp add: reachable_wait)
    moreover have "async_read_internal_loop sz rc func ws
                     (pthread_cond_wait w c1, dest1, to_read1, ret1) = Some (r, d, c', s')"
      using Cons(3) Wait by (simp add: st st')
    ultimately show ?thesis by (rule Cons.IH)
  qed
qed

lemma reachable_read:
  "reachable c \<Longrightarrow> async_read_internal sched c sz rc func = Some (r, d, c', s') \<Longrightarrow>
   reachable c'"
  unfolding async_read_internal_def by (rule reachable_read_loop) simp_all

lemma reachable_seek_loop:
  "reachable c \<Longrightarrow> async_seek_loop sched c = Some (r, c', s') \<Longrightarrow> reachable c'"
proof (induction sched arbitrary: c)
  case Nil
  show ?case
  proof (cases "async_seek_pass c")
    case (Leave x)
    obtain r1 c1 where x: "x = (r1, c1)" by (cases x)
    have "step c c1" using Leave unfolding x by (rule step.seek_leaves)
    then have "reachable c1" using Nil(1) by (rule reachable.stepped[rotated])
    then show ?thesis using Nil(2) Leave by (simp add: x)
  next
    case (Wait c1)
    then show ?thesis using Nil(2) by simp
  qed
next
  case (Cons w ws)
  show ?case
  proof (cases "async_seek_pass c")
    case (Leave x)
    obtain r1 c1 where x: "x = (r1, c1)" by (cases x)
    have "step c c1" using Leave unfolding x by (rule step.seek_leaves)
    then have "reachable c1" using Cons(2) by (rule reachable.stepped[rotated])
    then show ?thesis using Cons(3) Leave by (simp add: x)
  next
    case (Wait c1)
    then have "c1 = c" by (auto simp: async_seek_pass_def split: if_splits)
    then have "async_seek_loop ws (pthread_cond_wait w c) = Some (r, c', s')"
      using Cons(3) Wait by simp
    then show ?thesis using Cons.IH reachable_wait[OF Cons(2)] by blast
  qed
qed

lemma reachable_seek:
  assumes "reachable c" and "async_seek sched c pos whence = Some (r, c', s')"
  shows "reachable c'"
proof -
  let ?posted = "c\<lparr>seek_request := 1, seek_pos := seek_target c pos whence,
                    seek_whence := SEEK_SET, seek_completed := 0, seek_ret := 0\<rparr>"
  have p: "reachable ?posted"
    by (rule reachable.stepped[OF assms(1) step.seek_posts])
  from assms(2) consider "c' = c"
    | ret d where "async_read_internal sched c
              (ucast (seek_target c pos whence - logical_pos c)) 1 fifo_do_not_copy_func
            = Some (ret, d, c', s')"
    | "async_seek_loop sched ?posted = Some (r, c', s')"
    by (auto simp: async_seek_def Let_def seek_target_def split: if_splits option.splits)
  then show ?thesis
  proof cases
    case 1
    then show ?thesis using assms(1) by simp
  next
    case 2
    then show ?thesis using reachable_read[OF assms(1)] by blast
  next
    case 3
    then show ?thesis using reachable_seek_loop[OF p] by blast
  qed
qed

lemma iteration_writes:
  assumes "fifo_bounded c"
  shows "queued (fifo (snd (async_buffer_task_iteration rep c))) = []
       \<or> (\<exists>written.
            queued (fifo (snd (async_buffer_task_iteration rep c))) = queued (fifo c) @ written
            \<and> length written \<le> min 4096 (capacity (fifo c) - length (queued (fifo c))))"
proof -
  let ?space = "av_fifo_space (fifo c)"
  let ?to_copy = "FFMIN 4096 ?space"
  have n: "nat (sint ?to_copy) = min 4096 (capacity (fifo c) - length (queued (fifo c)))"
    by (simp add: sint_FFMIN sint_av_fifo_space[OF assms])
  have w: "\<exists>written. queued (snd (av_fifo_generic_write (fifo c) (ffurl_read rep) ?to_copy))
                       = queued (fifo c) @ written
             \<and> length written \<le> min 4096 (capacity (fifo c) - length (queued (fifo c)))"
  proof (cases "ffurl_read rep")
    case (Data bs)
    have "length (take (nat (sint ?to_copy)) bs)
            \<le> min 4096 (capacity (fifo c) - length (queued (fifo c)))"
      by (simp only: n[symmetric]) simp
    then show ?thesis by (simp add: av_fifo_generic_write_def Let_def Data)
  next
    case (Fail e)
    then show ?thesis by (simp add: av_fifo_generic_write_def)
  qed
  have same: "\<exists>written. queued (fifo c) = queued (fifo c) @ written
             \<and> length written \<le> min 4096 (capacity (fifo c) - length (queued (fifo c)))"
    by (rule exI[where x = "[]"]) simp
  show ?thesis
    using w same
    by (simp add: async_buffer_task_iteration_def Let_def av_fifo_reset_def split_beta)
qed

text \<open>
  C8. In every reachable state the buffer holds at most its capacity of 4 MiB, and an
  iteration of the worker from there either empties the buffer (serving a seek) or
  appends at most \<open>min 4096 space\<close> bytes to it, \<open>space\<close> being the free space before the
  iteration (so nothing when there is none); the buffer is within its capacity after
  the iteration too.
\<close>

theorem backpressure:
  assumes "reachable c"
  shows "length (queued (fifo c)) \<le> unat BUFFER_CAPACITY
       \<and> capacity (fifo c) = unat BUFFER_CAPACITY
       \<and> unat BUFFER_CAPACITY = 4 * 1024 * 1024
       \<and> (queued (fifo (snd (async_buffer_task_iteration rep c))) = []
          \<or> (\<exists>written.
               queued (fifo (snd (async_buffer_task_iteration rep c)))
                 = queued (fifo c) @ written
               \<and> length written \<le> min 4096 (capacity (fifo c) - length (queued (fifo c)))))
       \<and> length (queued (fifo (snd (async_buffer_task_iteration rep c))))
            \<le> unat BUFFER_CAPACITY"
proof -
  have b: "fifo_bounded c" by (rule reachable_fifo_bounded[OF assms])
  have b': "fifo_bounded (snd (async_buffer_task_iteration rep c))"
    by (rule iteration_fifo_bounded[OF b])
  show ?thesis
    using b b' iteration_writes[OF b, of rep] iteration_capacity[of rep c]
    by (simp add: fifo_bounded_def unat_BUFFER_CAPACITY)
qed

theorem backpressure_witness:
  "reachable example_context
   \<and> length (queued (fifo example_context)) \<le> unat BUFFER_CAPACITY
   \<and> queued (fifo (snd (async_buffer_task_iteration (Reply 0 (Data [1, 2, 3])) example_context)))
       = queued (fifo example_context) @ [1, 2, 3]
   \<and> length [1, 2, 3 :: uint8_t]
       \<le> min 4096 (capacity (fifo example_context) - length (queued (fifo example_context)))"
proof -
  have r: "reachable example_context"
    by (rule reachable.opened[OF async_open_example])
  from backpressure[OF r, of "Reply 0 (Data [1, 2, 3])"] r show ?thesis
    by (simp add: model_defs)
qed

end
